theory Spec2Isabelle
  imports
    Main
    "HOL-Library.Word"
    "HOL-Library.AList"
    "HOL-Library.Multiset"
    "HOL-Library.Sublist"
    "HOL-Library.Product_Lexorder"
    "HOL-Library.List_Lexorder"
begin

section \<open>Data model\<close>

text \<open>
  A byte is an 8-bit word; a \<^verbatim>\<open>bytes\<close> or \<^verbatim>\<open>bytearray\<close> object is a list of bytes.
  Every exception the Python code can raise is a constructor of \<open>error\<close>, and a function
  that can raise returns \<open>error + 'a\<close> with the exception on the left.
\<close>

type_synonym byte = "8 word"

datatype error = IndexError | KeyError | StructError | OverflowError | ValueError

text \<open>
  \<^verbatim>\<open>class Codeword\<close>: the three fields set by \<^verbatim>\<open>__init__\<close>. Offsets and lengths are
  produced by counters that start at 0 (matcher) or by \<^verbatim>\<open>struct.unpack('>HHB')\<close>
  (decompressor), so they are natural numbers.
\<close>

record codeword =
  prefix_start_offset :: nat
  prefix_len :: nat
  character :: byte

abbreviation Codeword :: "nat \<Rightarrow> nat \<Rightarrow> byte \<Rightarrow> codeword" where
  "Codeword off len c \<equiv> \<lparr>prefix_start_offset = off, prefix_len = len, character = c\<rparr>"

text \<open>
  Python subscription \<^verbatim>\<open>xs[i]\<close> with an integer index: a negative index counts from
  the end, and an index outside \<open>-len .. len - 1\<close> raises \<^verbatim>\<open>IndexError\<close>.
\<close>

definition getitem :: "'a list \<Rightarrow> int \<Rightarrow> error + 'a" where
  "getitem xs i =
     (if 0 \<le> i \<and> i < int (length xs) then Inr (xs ! nat i)
      else if i < 0 \<and> - int (length xs) \<le> i then Inr (xs ! nat (int (length xs) + i))
      else Inl IndexError)"

section \<open>LZ77 matcher: \<^verbatim>\<open>Lz77Compressor\<close> and \<^verbatim>\<open>Lz77.compress\<close>\<close>

text \<open>
  The inner \<^verbatim>\<open>while\<close> loop of \<^verbatim>\<open>codeword_for_position\<close> (lines 47--52). The three
  conjuncts are evaluated left to right, so both reads are in range when they happen:
  \<open>start + current_match_len < position \<le> position + current_match_len < length buffer\<close>.
\<close>

function match_while :: "byte list \<Rightarrow> nat \<Rightarrow> nat \<Rightarrow> nat \<Rightarrow> nat" where
  "match_while buffer position start current_match_len =
     (if position + current_match_len < length buffer \<and>
         start + current_match_len < position \<and>
         buffer ! (start + current_match_len) = buffer ! (position + current_match_len)
      then (if current_match_len + 1 \<ge> 258 then current_match_len + 1
            else match_while buffer position start (current_match_len + 1))
      else current_match_len)"
  by pat_completeness auto
termination
  by (relation "measure (\<lambda>(buffer, position, start, k). length buffer - (position + k))") auto

text \<open>
  The \<^verbatim>\<open>for offset in range(1, max_offset + 1)\<close> loop (lines 42--55), over the list of
  the offsets still to visit, carrying \<open>(longest_match_len, longest_match_offset)\<close>.
\<close>

fun offset_for :: "byte list \<Rightarrow> nat \<Rightarrow> nat list \<Rightarrow> nat \<times> nat \<Rightarrow> nat \<times> nat" where
  "offset_for buffer position [] best = best"
| "offset_for buffer position (offset # offsets) (longest_match_len, longest_match_offset) =
     (let start = int position - int offset in
      if start < 0 then (longest_match_len, longest_match_offset)
      else
        let current_match_len = match_while buffer position (nat start) 0 in
        if current_match_len > longest_match_len
        then offset_for buffer position offsets (current_match_len, offset)
        else offset_for buffer position offsets (longest_match_len, longest_match_offset))"

definition longest_match :: "nat \<Rightarrow> byte list \<Rightarrow> nat \<Rightarrow> nat \<times> nat" where
  "longest_match sliding_window_length buffer position =
     (let max_offset = min position sliding_window_length in
      offset_for buffer position [1 ..< max_offset + 1] (0, 0))"

text \<open>\<^verbatim>\<open>codeword_for_position\<close>: the loops above, then lines 57--65.\<close>

definition codeword_for_position :: "nat \<Rightarrow> byte list \<Rightarrow> nat \<Rightarrow> error + codeword" where
  "codeword_for_position sliding_window_length buffer position =
     (case longest_match sliding_window_length buffer position of
        (longest_match_len, longest_match_offset) \<Rightarrow>
          if longest_match_len > 0 then
            (let next_char_pos = position + longest_match_len in
             if next_char_pos \<ge> length buffer then
               (case getitem buffer (int position) of
                  Inl e \<Rightarrow> Inl e
                | Inr c \<Rightarrow> Inr (Codeword 0 0 c))
             else
               (case getitem buffer (int next_char_pos) of
                  Inl e \<Rightarrow> Inl e
                | Inr next_char \<Rightarrow> Inr (Codeword longest_match_offset longest_match_len next_char)))
          else
            (case getitem buffer (int position) of
               Inl e \<Rightarrow> Inl e
             | Inr next_char \<Rightarrow> Inr (Codeword 0 0 next_char)))"

text \<open>
  \<^verbatim>\<open>Lz77.compress\<close>: the generator's \<^verbatim>\<open>while position < len(data)\<close> loop, as the list
  of the codewords it yields from \<open>position\<close> on. \<^verbatim>\<open>compress_file\<close> drains the generator
  with a loop that tracks the same position.
\<close>

function compress_from :: "nat \<Rightarrow> byte list \<Rightarrow> nat \<Rightarrow> error + codeword list" where
  "compress_from sliding_window_length data position =
     (if position < length data then
        (case codeword_for_position sliding_window_length data position of
           Inl e \<Rightarrow> Inl e
         | Inr cw \<Rightarrow>
             (case compress_from sliding_window_length data (position + (prefix_len cw + 1)) of
                Inl e \<Rightarrow> Inl e
              | Inr cws \<Rightarrow> Inr (cw # cws)))
      else Inr [])"
  by pat_completeness auto
termination
  by (relation "measure (\<lambda>(w, data, position). length data - position)") auto

definition compress :: "nat \<Rightarrow> byte list \<Rightarrow> error + codeword list" where
  "compress sliding_window_length data = compress_from sliding_window_length data 0"

section \<open>Replay engine: \<^verbatim>\<open>Lz77Decompressor\<close>\<close>

text \<open>
  The \<^verbatim>\<open>for i in range(length)\<close> loop of \<^verbatim>\<open>decompress_codeword\<close> (lines 107--110) over
  the indices still to visit. The buffer grows inside the loop, so \<open>length buffer\<close> is
  read again at every iteration, as \<^verbatim>\<open>len(self.buffer)\<close> is.
\<close>

fun copy_for :: "byte list \<Rightarrow> int \<Rightarrow> nat list \<Rightarrow> error + byte list" where
  "copy_for buffer start [] = Inr buffer"
| "copy_for buffer start (i # rest) =
     (if start + int i \<ge> int (length buffer) then Inr buffer
      else
        (case getitem buffer (start + int i) of
           Inl e \<Rightarrow> Inl e
         | Inr b \<Rightarrow> copy_for (buffer @ [b]) start rest))"

definition decompress_codeword :: "byte list \<Rightarrow> codeword \<Rightarrow> error + byte list" where
  "decompress_codeword buffer cw =
     (let offset = prefix_start_offset cw; len = prefix_len cw; char = character cw in
      if offset > 0 then
        (let start = int (length buffer) - int offset in
         case copy_for buffer start [0 ..< len] of
           Inl e \<Rightarrow> Inl e
         | Inr buffer' \<Rightarrow> Inr (buffer' @ [char]))
      else Inr (buffer @ [char]))"

text \<open>The caller's loop \<^verbatim>\<open>for cw in codewords: decompressor.decompress_codeword(cw)\<close>.\<close>

fun decompress_codewords :: "byte list \<Rightarrow> codeword list \<Rightarrow> error + byte list" where
  "decompress_codewords buffer [] = Inr buffer"
| "decompress_codewords buffer (cw # cws) =
     (case decompress_codeword buffer cw of
        Inl e \<Rightarrow> Inl e
      | Inr buffer' \<Rightarrow> decompress_codewords buffer' cws)"

section \<open>Huffman coding\<close>

text \<open>
  A Python \<^verbatim>\<open>dict\<close> is an association list in insertion order with distinct keys:
  \<open>map_of d k\<close> is the lookup, and the assignment \<^verbatim>\<open>d[k] = v\<close> is \<open>AList.update k v d\<close>,
  which overwrites in place the value of a key that is present and appends a new key at
  the end. Two dicts are equal in Python when they hold the same items, in any order.

  A code is a Python \<^verbatim>\<open>str\<close> of the characters \<^verbatim>\<open>'0'\<close> and \<^verbatim>\<open>'1'\<close>.
\<close>

type_synonym ('k, 'v) dict = "('k \<times> 'v) list"

text \<open>\<^verbatim>\<open>d.get(k, dflt)\<close>: the value of the key, or \<open>dflt\<close> when the key is missing.\<close>

definition dict_get :: "('k, 'v) dict \<Rightarrow> 'k \<Rightarrow> 'v \<Rightarrow> 'v" where
  "dict_get d k dflt = (case map_of d k of None \<Rightarrow> dflt | Some v \<Rightarrow> v)"

text \<open>\<^verbatim>\<open>codes[s]\<close> on a \<^verbatim>\<open>defaultdict(str)\<close>: the empty string for a missing key.\<close>

definition getitem_defaultdict_str :: "('k, string) dict \<Rightarrow> 'k \<Rightarrow> string" where
  "getitem_defaultdict_str d k = (case map_of d k of None \<Rightarrow> [] | Some v \<Rightarrow> v)"

text \<open>
  \<^verbatim>\<open>heapq\<close> belongs to the Python standard library, not to the repository; it is modelled
  by its contract. A heap holds a collection of items, \<^verbatim>\<open>heappush\<close> adds one and
  \<^verbatim>\<open>heappop\<close> removes and returns the smallest. The items of \<^verbatim>\<open>huffman\<close> are tuples
  \<^verbatim>\<open>(freq, [symbols])\<close>, which Python compares lexicographically: by frequency, then by
  the symbol lists, themselves compared lexicographically. That is the order of
  \<open>nat \<times> 'a list\<close> here. The heap is represented by the sorted list of its items, the
  smallest first; two items that compare equal are the same tuple, so it makes no
  difference which of them \<^verbatim>\<open>heappop\<close> returns.
\<close>

definition heappush :: "('i::linorder) list \<Rightarrow> 'i \<Rightarrow> 'i list" where
  "heappush heap item = insort item heap"

text \<open>
  The two inner loops of \<^verbatim>\<open>huffman\<close> (lines 179--182):
  \<^verbatim>\<open>for s in sym: codes[s] = bit + codes[s]\<close>.
\<close>

definition prepend_bit :: "char \<Rightarrow> 'a list \<Rightarrow> ('a, string) dict \<Rightarrow> ('a, string) dict" where
  "prepend_bit bit' syms codes' =
     fold (\<lambda>s d. AList.update s (bit' # getitem_defaultdict_str d s) d) syms codes'"

text \<open>
  The \<^verbatim>\<open>while len(heap) > 1\<close> loop (lines 176--183): the two \<^verbatim>\<open>heappop\<close> calls take the
  two smallest items, in this order.
\<close>

function huffman_while ::
  "(nat \<times> ('a::linorder) list) list \<Rightarrow> ('a, string) dict \<Rightarrow> ('a, string) dict" where
  "huffman_while ((freq1, sym1) # (freq2, sym2) # heap) codes' =
     huffman_while (heappush heap (freq1 + freq2, sym1 @ sym2))
       (prepend_bit (CHR ''1'') sym2 (prepend_bit (CHR ''0'') sym1 codes'))"
| "huffman_while [item] codes' = codes'"
| "huffman_while [] codes' = codes'"
  by pat_completeness auto
termination
  by (relation "measure (\<lambda>(heap, codes'). length heap)") (auto simp: heappush_def)

definition huffman :: "(('a::linorder), nat) dict \<Rightarrow> ('a, string) dict" where
  "huffman frequencies =
     (let heap = fold (\<lambda>(symbol, freq) heap. heappush heap (freq, [symbol])) frequencies [];
          codes' = huffman_while heap []
      in if length frequencies = 1
         then AList.update (fst (hd frequencies)) ''0'' codes'
         else codes')"

text \<open>\<^verbatim>\<open>class Codec\<close>: the two dicts, \<^verbatim>\<open>update\<close>, \<^verbatim>\<open>encode\<close> and \<^verbatim>\<open>decode\<close>.\<close>

record 'a codec =
  letters :: "(string, 'a) dict"
  codes :: "('a, string) dict"

definition Codec :: "'a codec" where
  "Codec = \<lparr>letters = [], codes = []\<rparr>"

definition codec_update :: "'a codec \<Rightarrow> 'a \<Rightarrow> string \<Rightarrow> 'a codec" where
  "codec_update self letter code =
     \<lparr>letters = AList.update code letter (letters self),
      codes = AList.update letter code (codes self)\<rparr>"

text \<open>\<^verbatim>\<open>''.join(self.codes[s] for s in symbols)\<close>: a missing symbol raises \<^verbatim>\<open>KeyError\<close>.\<close>

fun encode :: "'a codec \<Rightarrow> 'a list \<Rightarrow> error + string" where
  "encode self [] = Inr []"
| "encode self (s # symbols) =
     (case map_of (codes self) s of
        None \<Rightarrow> Inl KeyError
      | Some code \<Rightarrow>
          (case encode self symbols of
             Inl e \<Rightarrow> Inl e
           | Inr bits \<Rightarrow> Inr (code @ bits)))"

text \<open>The loop of \<^verbatim>\<open>decode\<close>, carrying \<open>current_code\<close> and \<open>decoded\<close>.\<close>

fun decode_for :: "'a codec \<Rightarrow> string \<Rightarrow> string \<Rightarrow> 'a list \<Rightarrow> 'a list" where
  "decode_for self [] current_code decoded = decoded"
| "decode_for self (bit' # bitstream) current_code decoded =
     (case map_of (letters self) (current_code @ [bit']) of
        Some letter \<Rightarrow> decode_for self bitstream [] (decoded @ [letter])
      | None \<Rightarrow> decode_for self bitstream (current_code @ [bit']) decoded)"

definition decode :: "'a codec \<Rightarrow> string \<Rightarrow> 'a list" where
  "decode self bitstream = decode_for self bitstream [] []"

section \<open>File framing: \<^verbatim>\<open>compress_file\<close> and \<^verbatim>\<open>decompress_file\<close>\<close>

text \<open>
  \<^verbatim>\<open>struct.pack('>HHB', ...)\<close>: two big-endian unsigned 16-bit fields and a byte;
  a field out of range raises \<^verbatim>\<open>struct.error\<close>.
\<close>

definition pack_HHB :: "codeword \<Rightarrow> error + byte list" where
  "pack_HHB cw =
     (if prefix_start_offset cw > 65535 \<or> prefix_len cw > 65535 then Inl StructError
      else Inr [of_nat (prefix_start_offset cw div 256), of_nat (prefix_start_offset cw mod 256),
                of_nat (prefix_len cw div 256), of_nat (prefix_len cw mod 256),
                character cw])"

text \<open>Lines 213--216: \<^verbatim>\<open>for cw in codewords: serialized += struct.pack(...)\<close>.\<close>

fun serialize :: "codeword list \<Rightarrow> error + byte list" where
  "serialize [] = Inr []"
| "serialize (cw # codewords) =
     (case pack_HHB cw of
        Inl e \<Rightarrow> Inl e
      | Inr record \<Rightarrow>
          (case serialize codewords of
             Inl e \<Rightarrow> Inl e
           | Inr serialized \<Rightarrow> Inr (record @ serialized)))"

text \<open>
  \<^verbatim>\<open>Counter(symbols)\<close>: each element in turn sets \<^verbatim>\<open>self[elem] = self.get(elem, 0) + 1\<close>.
  A symbol is the one-byte \<^verbatim>\<open>bytes([b])\<close>, modelled by the byte itself; one-byte
  \<^verbatim>\<open>bytes\<close> objects compare as their bytes do.
\<close>

definition Counter :: "'a list \<Rightarrow> ('a, nat) dict" where
  "Counter symbols =
     fold (\<lambda>elem d. AList.update elem (dict_get d elem 0 + 1) d) symbols []"

text \<open>Lines 221 and 259: \<^verbatim>\<open>codes = huffman(freq) if freq else {}\<close>.\<close>

definition build_codes :: "(byte, nat) dict \<Rightarrow> (byte, string) dict" where
  "build_codes freq = (if freq \<noteq> [] then huffman freq else [])"

text \<open>Lines 222--224 and 260--262: a fresh \<^verbatim>\<open>Codec\<close> updated with every item of \<open>codes\<close>.\<close>

definition build_codec :: "(byte, string) dict \<Rightarrow> byte codec" where
  "build_codec cs = fold (\<lambda>(sym, code) codec. codec_update codec sym code) cs Codec"

text \<open>
  \<^verbatim>\<open>int(byte, 2)\<close> for a chunk of the bit string: \<^verbatim>\<open>ValueError\<close> on the empty string and
  on any character other than \<^verbatim>\<open>'0'\<close> and \<^verbatim>\<open>'1'\<close>.
\<close>

fun int_base2_acc :: "nat \<Rightarrow> string \<Rightarrow> error + nat" where
  "int_base2_acc acc [] = Inr acc"
| "int_base2_acc acc (c # cs) =
     (if c = CHR ''0'' then int_base2_acc (2 * acc) cs
      else if c = CHR ''1'' then int_base2_acc (2 * acc + 1) cs
      else Inl ValueError)"

definition int_base2 :: "string \<Rightarrow> error + nat" where
  "int_base2 s = (if s = [] then Inl ValueError else int_base2_acc 0 s)"

text \<open>
  Lines 230--233: \<^verbatim>\<open>for i in range(0, len(encoded_bits), 8)\<close>, each chunk
  \<^verbatim>\<open>encoded_bits[i:i+8]\<close> parsed and appended; \<^verbatim>\<open>bytearray.append\<close> raises
  \<^verbatim>\<open>ValueError\<close> outside \<open>0 .. 255\<close>.
\<close>

function pack_bits :: "string \<Rightarrow> error + byte list" where
  "pack_bits encoded_bits =
     (if encoded_bits = [] then Inr []
      else
        (case int_base2 (take 8 encoded_bits) of
           Inl e \<Rightarrow> Inl e
         | Inr v \<Rightarrow>
             if v \<ge> 256 then Inl ValueError
             else
               (case pack_bits (drop 8 encoded_bits) of
                  Inl e \<Rightarrow> Inl e
                | Inr bytes_out \<Rightarrow> Inr (of_nat v # bytes_out))))"
  by pat_completeness auto
termination
  by (relation "measure length") auto

text \<open>\<^verbatim>\<open>count.to_bytes(4, 'big')\<close>: \<^verbatim>\<open>OverflowError\<close> from \<open>2 ^ 32\<close> on.\<close>

definition to_bytes4 :: "nat \<Rightarrow> error + byte list" where
  "to_bytes4 n =
     (if n \<ge> 2 ^ 32 then Inl OverflowError
      else Inr [of_nat (n div 2 ^ 24), of_nat (n div 2 ^ 16 mod 256),
                of_nat (n div 2 ^ 8 mod 256), of_nat (n mod 256)])"

text \<open>
  Lines 236--239: \<^verbatim>\<open>for b in range(256)\<close>, the counter of \<^verbatim>\<open>bytes([b])\<close> (0 when the key
  is missing) written as four bytes.
\<close>

fun write_counts :: "(byte, nat) dict \<Rightarrow> nat list \<Rightarrow> error + byte list" where
  "write_counts freq [] = Inr []"
| "write_counts freq (b # bs) =
     (let byte_key = (of_nat b :: byte);
          count = dict_get freq byte_key 0
      in case to_bytes4 count of
           Inl e \<Rightarrow> Inl e
         | Inr quad \<Rightarrow>
             (case write_counts freq bs of
                Inl e \<Rightarrow> Inl e
              | Inr rest \<Rightarrow> Inr (quad @ rest)))"

text \<open>
  \<^verbatim>\<open>compress_file\<close>, from the bytes read to the bytes written. The progress bar does
  not change the result. The bytes are computed before the output file is opened, so an
  error of an earlier stage comes first.
\<close>

definition compress_file :: "byte list \<Rightarrow> error + byte list" where
  "compress_file data =
     (case compress 32768 data of
        Inl e \<Rightarrow> Inl e
      | Inr codewords \<Rightarrow>
     (case serialize codewords of
        Inl e \<Rightarrow> Inl e
      | Inr serialized \<Rightarrow>
     (let symbols = serialized;
          freq = Counter symbols;
          cs = build_codes freq;
          codec = build_codec cs
      in
     (case (if cs \<noteq> [] then encode codec symbols else Inr []) of
        Inl e \<Rightarrow> Inl e
      | Inr encoded_bits \<Rightarrow>
     (let padding = (8 - length encoded_bits mod 8) mod 8;
          encoded_bits = encoded_bits @ replicate padding (CHR ''0'')
      in
     (case pack_bits encoded_bits of
        Inl e \<Rightarrow> Inl e
      | Inr bytes_out \<Rightarrow>
     (case write_counts freq [0 ..< 256] of
        Inl e \<Rightarrow> Inl e
      | Inr header \<Rightarrow> Inr (header @ bytes_out))))))))"

text \<open>
  \<^verbatim>\<open>int.from_bytes(..., 'big')\<close> of a slice of any length (0 for the empty slice), and
  the slice \<^verbatim>\<open>xs[i:j]\<close> for \<open>0 \<le> i \<le> j\<close>, which Python clips to the length of \<open>xs\<close>.
\<close>

definition from_bytes :: "byte list \<Rightarrow> nat" where
  "from_bytes bs = foldl (\<lambda>acc b. acc * 256 + unat b) 0 bs"

definition slice :: "'a list \<Rightarrow> nat \<Rightarrow> nat \<Rightarrow> 'a list" where
  "slice xs i j = take (j - i) (drop i xs)"

text \<open>Lines 253--257: the frequency dict read back, one key per non-zero counter.\<close>

fun read_counts :: "byte list \<Rightarrow> nat list \<Rightarrow> (byte, nat) dict \<Rightarrow> (byte, nat) dict" where
  "read_counts freq_data [] freq = freq"
| "read_counts freq_data (b # bs) freq =
     (let count = from_bytes (slice freq_data (b * 4) ((b + 1) * 4))
      in if count > 0
         then read_counts freq_data bs (AList.update (of_nat b) count freq)
         else read_counts freq_data bs freq)"

text \<open>\<^verbatim>\<open>f"{byte:08b}"\<close>: the eight bits of a byte, most significant first.\<close>

definition format_08b :: "byte \<Rightarrow> string" where
  "format_08b byte = map (\<lambda>i. if bit byte i then CHR ''1'' else CHR ''0'') [7, 6, 5, 4, 3, 2, 1, 0]"

text \<open>
  Lines 268--274: the decoded bytes cut into chunks of five; the loop stops at the first
  chunk that is shorter, and \<^verbatim>\<open>struct.unpack('>HHB', chunk)\<close> reads each full one.
\<close>

fun unpack_chunks :: "byte list \<Rightarrow> codeword list" where
  "unpack_chunks (o1 # o0 # l1 # l0 # c # serialized) =
     Codeword (unat o1 * 256 + unat o0) (unat l1 * 256 + unat l0) c # unpack_chunks serialized"
| "unpack_chunks chunk = []"

text \<open>
  The code table the decompressor builds from a file (lines 249--259), and
  \<^verbatim>\<open>decompress_file\<close>, from the bytes read to the bytes written.
\<close>

definition read_freq :: "byte list \<Rightarrow> (byte, nat) dict" where
  "read_freq input = (let freq_data = take 1024 input in read_counts freq_data [0 ..< 256] [])"

definition decompress_file :: "byte list \<Rightarrow> error + byte list" where
  "decompress_file input =
     (let encoded_data = drop 1024 input;
          freq = read_freq input;
          cs = build_codes freq;
          codec = build_codec cs;
          bitstream = concat (map format_08b encoded_data);
          decoded_symbols = (if cs \<noteq> [] then decode codec bitstream else []);
          serialized = (if cs \<noteq> [] then decoded_symbols else []);
          codewords = unpack_chunks serialized
      in decompress_codewords [] codewords)"

section \<open>Derived notions used in the statements\<close>

text \<open>
  The run length the matcher computes for one candidate offset: lines 43 and 46--52 of
  \<^verbatim>\<open>codeword_for_position\<close>, that is the inner loop started at
  \<open>start = position - offset\<close> with \<open>current_match_len = 0\<close>.
\<close>

definition run_length :: "byte list \<Rightarrow> nat \<Rightarrow> nat \<Rightarrow> nat" where
  "run_length buffer position offset = match_while buffer position (position - offset) 0"

text \<open>
  The number of input bytes a codeword sequence accounts for: \<^verbatim>\<open>Lz77.compress\<close> advances
  the position by \<^verbatim>\<open>codeword.prefix_len + 1\<close> after each codeword.
\<close>

definition covered :: "codeword list \<Rightarrow> nat" where
  "covered cws = sum_list (map (\<lambda>cw. prefix_len cw + 1) cws)"

text \<open>
  The run length as the specification words it, for the refinement statement: \<open>k\<close> bytes
  starting \<open>offset\<close> bytes back agree with the \<open>k\<close> bytes at the position, where \<open>k\<close>
  is capped by the buffer end, by \<open>k = offset\<close> and by 258. The matcher's run length is
  the greatest such \<open>k\<close>.
\<close>

definition spec_run :: "byte list \<Rightarrow> nat \<Rightarrow> nat \<Rightarrow> nat \<Rightarrow> bool" where
  "spec_run buffer p offset k \<longleftrightarrow>
     p + k \<le> length buffer \<and> k \<le> offset \<and> k \<le> 258 \<and>
     (\<forall>j \<in> {..< k}. buffer ! (p - offset + j) = buffer ! (p + j))"

text \<open>
  The counter \<^verbatim>\<open>decompress_file\<close> reads for the byte value \<open>b\<close> (line 255):
  \<^verbatim>\<open>int.from_bytes(freq_data[b*4:(b+1)*4], 'big')\<close>.
\<close>

definition counter_at :: "byte list \<Rightarrow> nat \<Rightarrow> nat" where
  "counter_at freq_data b = from_bytes (slice freq_data (b * 4) ((b + 1) * 4))"

text \<open>Every count of a frequency dict is positive.\<close>

definition positive_counts :: "('k, nat) dict \<Rightarrow> bool" where
  "positive_counts freq \<longleftrightarrow> (\<forall>k v. map_of freq k = Some v \<longrightarrow> 0 < v)"

text \<open>
  The frequency dict \<^verbatim>\<open>compress_file\<close> builds (lines 200--219): the \<^verbatim>\<open>Counter\<close> of the
  serialized codewords.
\<close>

definition compressor_freq :: "byte list \<Rightarrow> error + (byte, nat) dict" where
  "compressor_freq data =
     (case compress 32768 data of
        Inl e \<Rightarrow> Inl e
      | Inr codewords \<Rightarrow>
          (case serialize codewords of
             Inl e \<Rightarrow> Inl e
           | Inr serialized \<Rightarrow> Inr (Counter serialized)))"

text \<open>
  \<^verbatim>\<open>compress_file\<close> followed by \<^verbatim>\<open>decompress_file\<close> on the file it wrote, as the
  round-trip tests run them.
\<close>

definition roundtrip :: "byte list \<Rightarrow> error + byte list" where
  "roundtrip data = (case compress_file data of Inl e \<Rightarrow> Inl e | Inr out \<Rightarrow> decompress_file out)"

text \<open>
  The invariant of the \<^verbatim>\<open>while\<close> loop of \<^verbatim>\<open>huffman\<close>. Within one group of the heap no code
  is a prefix of another, and a symbol whose code is still empty is alone in its group;
  the groups of the heap are pairwise disjoint and without repetition, and the keys of
  \<open>codes\<close> are symbols of the heap.
\<close>

definition group_ok :: "('a, string) dict \<Rightarrow> 'a list \<Rightarrow> bool" where
  "group_ok d g \<longleftrightarrow>
     (\<forall>s \<in> set g. \<forall>t \<in> set g. s \<noteq> t \<longrightarrow>
        \<not> prefix (getitem_defaultdict_str d s) (getitem_defaultdict_str d t)) \<and>
     (\<forall>s \<in> set g. getitem_defaultdict_str d s = [] \<longrightarrow> g = [s])"

definition huff_inv :: "(nat \<times> 'a list) list \<Rightarrow> ('a, string) dict \<Rightarrow> bool" where
  "huff_inv heap d \<longleftrightarrow>
     distinct (concat (map snd heap)) \<and> (\<forall>g \<in> snd ` set heap. group_ok d g) \<and>
     fst ` set d \<subseteq> set (concat (map snd heap)) \<and> distinct (map fst d)"


section \<open>The matching loops\<close>

declare match_while.simps [simp del]

lemma match_while_cap: "k < 258 \<Longrightarrow> match_while buffer p s k \<le> 258"
proof (induction buffer p s k rule: match_while.induct)
  case (1 buffer p s k)
  show ?case
    using "1.IH" "1.prems" match_while.simps [of buffer p s k] by auto
qed

lemma match_while_end:
  "p + k \<le> length buffer \<Longrightarrow> p + match_while buffer p s k \<le> length buffer"
proof (induction buffer p s k rule: match_while.induct)
  case (1 buffer p s k)
  show ?case
    using "1.IH" "1.prems" match_while.simps [of buffer p s k] by auto
qed

lemma match_while_start:
  "s + k \<le> p \<Longrightarrow> s + match_while buffer p s k \<le> p"
proof (induction buffer p s k rule: match_while.induct)
  case (1 buffer p s k)
  show ?case
    using "1.IH" "1.prems" match_while.simps [of buffer p s k] by auto
qed

lemma match_while_pos:
  "0 < match_while buffer p s 0 \<Longrightarrow> p < length buffer"
  using match_while.simps [of buffer p s 0] by (auto split: if_splits)

lemma match_while_equal:
  "k \<le> j \<Longrightarrow> j < match_while buffer p s k \<Longrightarrow> buffer ! (s + j) = buffer ! (p + j)"
proof (induction buffer p s k rule: match_while.induct)
  case (1 buffer p s k)
  note unfold = match_while.simps [of buffer p s k]
  show ?case
  proof (cases "j = k")
    case True
    with "1.prems" unfold show ?thesis
      by (auto split: if_splits)
  next
    case False
    with "1.prems" have "Suc k \<le> j" by simp
    with "1.prems" "1.IH" unfold show ?thesis
      by (auto split: if_splits)
  qed
qed

lemma match_while_maximal:
  "match_while buffer p s k = r \<Longrightarrow> r < 258 \<Longrightarrow> p + r < length buffer \<Longrightarrow> s + r < p \<Longrightarrow>
   buffer ! (s + r) \<noteq> buffer ! (p + r)"
proof (induction buffer p s k rule: match_while.induct)
  case (1 buffer p s k)
  show ?case
    using "1.prems" "1.IH" match_while.simps [of buffer p s k]
    by (auto split: if_splits)
qed

lemma offset_for_step:
  "offset \<le> position \<Longrightarrow>
   offset_for buffer position (offset # offsets) (ll, lo) =
     (if run_length buffer position offset > ll
      then offset_for buffer position offsets (run_length buffer position offset, offset)
      else offset_for buffer position offsets (ll, lo))"
  by (simp add: run_length_def Let_def nat_diff_distrib')

lemma offset_for_spec:
  assumes "\<forall>offset \<in> set offsets. offset \<le> position"
    and "sorted_wrt (<) offsets"
    and "offset_for buffer position offsets (ll, lo) = (L, off)"
  shows "ll \<le> L \<and> (\<forall>offset \<in> set offsets. run_length buffer position offset \<le> L) \<and>
         ((L, off) = (ll, lo) \<or>
          (ll < L \<and> off \<in> set offsets \<and> run_length buffer position off = L \<and>
           (\<forall>offset \<in> set offsets. offset < off \<longrightarrow> run_length buffer position offset < L)))"
  using assms
proof (induction offsets arbitrary: ll lo)
  case Nil
  then show ?case by simp
next
  case (Cons a offsets)
  from Cons.prems have a: "a \<le> position" and rest: "\<forall>offset \<in> set offsets. offset \<le> position"
    and srt: "sorted_wrt (<) offsets" and gt: "\<forall>offset \<in> set offsets. a < offset"
    by auto
  show ?case
  proof (cases "run_length buffer position a > ll")
    case True
    with Cons.prems(3) a
    have "offset_for buffer position offsets (run_length buffer position a, a) = (L, off)"
      by (simp add: offset_for_step del: offset_for.simps)
    from Cons.IH [OF rest srt this] True gt show ?thesis
      by (auto simp: less_imp_le dest: less_asym)
  next
    case False
    with Cons.prems(3) a
    have "offset_for buffer position offsets (ll, lo) = (L, off)"
      by (simp add: offset_for_step del: offset_for.simps)
    from Cons.IH [OF rest srt this] False gt show ?thesis
      by (auto dest: less_asym)
  qed
qed

lemma longest_match_spec:
  assumes "longest_match W buffer position = (L, off)"
  shows "(\<forall>offset \<in> {1 .. min position W}. run_length buffer position offset \<le> L) \<and>
         (if L = 0 then off = 0
          else off \<in> {1 .. min position W} \<and> run_length buffer position off = L \<and>
               (\<forall>offset \<in> {1 .. min position W}. offset < off \<longrightarrow> run_length buffer position offset < L))"
proof -
  let ?os = "[1 ..< min position W + 1]"
  have 1: "\<forall>offset \<in> set ?os. offset \<le> position" by auto
  have 2: "sorted_wrt (<) ?os" by (rule sorted_wrt_upt)
  have 3: "offset_for buffer position ?os (0, 0) = (L, off)"
    using assms by (simp add: longest_match_def Let_def)
  have s: "set ?os = {1 .. min position W}" by auto
  from offset_for_spec [OF 1 2 3] show ?thesis
    unfolding s by auto
qed

lemma run_length_cap: "run_length buffer position offset \<le> 258"
  by (simp add: run_length_def match_while_cap)

lemma run_length_le_offset:
  assumes "offset \<le> position"
  shows "run_length buffer position offset \<le> offset"
proof -
  have "position - offset + match_while buffer position (position - offset) 0 \<le> position"
    by (rule match_while_start) simp
  with assms show ?thesis by (simp add: run_length_def)
qed

lemma run_length_end:
  assumes "0 < run_length buffer position offset"
  shows "position + run_length buffer position offset \<le> length buffer"
proof -
  from assms have "position < length buffer"
    unfolding run_length_def by (rule match_while_pos)
  then have "position + 0 \<le> length buffer" by simp
  then show ?thesis
    unfolding run_length_def by (rule match_while_end)
qed

lemma run_length_equal:
  "j < run_length buffer position offset \<Longrightarrow>
     buffer ! (position - offset + j) = buffer ! (position + j)"
  unfolding run_length_def by (rule match_while_equal) auto

lemma run_length_maximal:
  assumes "run_length buffer position offset = r" "r < 258" "position + r < length buffer" "r < offset" "offset \<le> position"
  shows "buffer ! (position - offset + r) \<noteq> buffer ! (position + r)"
  using assms(1) unfolding run_length_def
  by (rule match_while_maximal) (use assms in auto)

section \<open>One codeword: emission and replay\<close>

lemma getitem_nat: "i < length xs \<Longrightarrow> getitem xs (int i) = Inr (xs ! i)"
  by (simp add: getitem_def)

lemma codeword_for_position_cases:
  assumes "position < length buffer"
    and "longest_match W buffer position = (L, off)"
  shows "codeword_for_position W buffer position =
           Inr (if 0 < L \<and> position + L < length buffer
                then Codeword off L (buffer ! (position + L))
                else Codeword 0 0 (buffer ! position))"
  using assms by (simp add: codeword_for_position_def Let_def getitem_nat del: of_nat_add)

lemma copy_for_in_range:
  assumes "off \<le> p" "0 < off" "p + L \<le> length data"
    and "\<forall>j < L. data ! (p - off + j) = data ! (p + j)"
    and "i \<le> L"
  shows "copy_for (take (p + i) data) (int p - int off) [i ..< L] = Inr (take (p + L) data)"
  using assms(5)
proof (induction "L - i" arbitrary: i)
  case 0
  then show ?case by simp
next
  case (Suc n)
  then have i: "i < L" by simp
  with assms have len: "length (take (p + i) data) = p + i" by simp
  have idx: "int p - int off + int i = int (p - off + i)"
    using assms(1) by simp
  have lt: "p - off + i < p + i" using assms(1,2) by simp
  have "getitem (take (p + i) data) (int (p - off + i)) = Inr (take (p + i) data ! (p - off + i))"
    by (rule getitem_nat) (use lt len in simp)
  also have "take (p + i) data ! (p - off + i) = data ! (p - off + i)"
    using lt by simp
  also have "\<dots> = data ! (p + i)"
    using assms(4) i by simp
  finally have get: "getitem (take (p + i) data) (int (p - off + i)) = Inr (data ! (p + i))" .
  have app: "take (p + i) data @ [data ! (p + i)] = take (p + Suc i) data"
    using i assms(3) by (simp add: take_Suc_conv_app_nth)
  have IH: "copy_for (take (p + Suc i) data) (int p - int off) [Suc i ..< L] = Inr (take (p + L) data)"
    using Suc i by (intro Suc.hyps(1)) auto
  have "[i ..< L] = i # [Suc i ..< L]" using i by (simp add: upt_conv_Cons)
  then show ?case
    using IH lt len by (simp add: idx get app del: length_take of_nat_add of_nat_diff)
qed

lemma decompress_codeword_literal:
  "decompress_codeword buffer (Codeword 0 0 c) = Inr (buffer @ [c])"
  by (simp add: decompress_codeword_def)

lemma codeword_step:
  assumes "position < length data"
  shows "\<exists>cw. codeword_for_position W data position = Inr cw \<and>
              position + prefix_len cw < length data \<and>
              (0 < prefix_start_offset cw \<longrightarrow> prefix_len cw \<le> prefix_start_offset cw) \<and>
              decompress_codeword (take position data) cw = Inr (take (position + (prefix_len cw + 1)) data)"
proof -
  obtain L off where lm: "longest_match W data position = (L, off)"
    by (cases "longest_match W data position")
  note spec = longest_match_spec [OF lm]
  note cw = codeword_for_position_cases [OF assms lm]
  show ?thesis
  proof (cases "0 < L \<and> position + L < length data")
    case False
    then have "codeword_for_position W data position = Inr (Codeword 0 0 (data ! position))"
      using cw by simp
    then show ?thesis
      using assms by (simp add: decompress_codeword_literal take_Suc_conv_app_nth)
  next
    case True
    then have cw': "codeword_for_position W data position = Inr (Codeword off L (data ! (position + L)))"
      using cw by simp
    from True spec have off: "1 \<le> off" "off \<le> position" and run: "run_length data position off = L"
      by auto
    have Lo: "L \<le> off" using run_length_le_offset [OF off(2), of data] run by simp
    have eq: "\<forall>j < L. data ! (position - off + j) = data ! (position + j)"
      using run_length_equal [of _ data position off] run by simp
    have "copy_for (take (position + 0) data) (int position - int off) [0 ..< L] = Inr (take (position + L) data)"
      by (rule copy_for_in_range) (use off True eq in auto)
    then have "decompress_codeword (take position data) (Codeword off L (data ! (position + L)))
                 = Inr (take (position + (L + 1)) data)"
      using off True assms by (simp add: decompress_codeword_def Let_def take_Suc_conv_app_nth)
    with cw' True Lo show ?thesis by simp
  qed
qed

declare compress_from.simps [simp del]

lemma compress_from_roundtrip:
  "position \<le> length data \<Longrightarrow>
   \<exists>cws. compress_from W data position = Inr cws \<and>
         covered cws = length data - position \<and>
         decompress_codewords (take position data) cws = Inr data"
proof (induction W data position rule: compress_from.induct)
  case (1 W data position)
  show ?case
  proof (cases "position < length data")
    case False
    with "1.prems" show ?thesis
      by (subst compress_from.simps) (simp add: covered_def)
  next
    case True
    from codeword_step [OF True, of W] obtain cw where
      cw: "codeword_for_position W data position = Inr cw"
      and nxt: "position + prefix_len cw < length data"
      and rep: "decompress_codeword (take position data) cw = Inr (take (position + (prefix_len cw + 1)) data)"
      by blast
    from "1.IH" [OF True cw] nxt obtain cws where
      rest: "compress_from W data (position + (prefix_len cw + 1)) = Inr cws"
      and cov: "covered cws = length data - (position + (prefix_len cw + 1))"
      and dec: "decompress_codewords (take (position + (prefix_len cw + 1)) data) cws = Inr data"
      by auto
    have "compress_from W data position = Inr (cw # cws)"
      using True cw rest by (simp add: compress_from.simps [of W data position])
    moreover have "covered (cw # cws) = length data - position"
      using cov nxt by (simp add: covered_def)
    moreover have "decompress_codewords (take position data) (cw # cws) = Inr data"
      using rep dec by simp
    ultimately show ?thesis by blast
  qed
qed

lemma run_length_is_spec_run:
  assumes "p \<le> length buffer" "offset \<le> p"
  shows "spec_run buffer p offset (run_length buffer p offset)"
proof -
  have "p + run_length buffer p offset \<le> length buffer"
    using run_length_end [of buffer p offset] assms(1) by (cases "run_length buffer p offset = 0") auto
  then show ?thesis
    unfolding spec_run_def
    using run_length_le_offset [OF assms(2)] run_length_cap run_length_equal by auto
qed

lemma spec_run_le_run_length:
  assumes "spec_run buffer p offset k" "offset \<le> p"
  shows "k \<le> run_length buffer p offset"
proof (rule ccontr)
  let ?r = "run_length buffer p offset"
  assume "\<not> k \<le> ?r"
  then have lt: "?r < k" by simp
  with assms(1) have "?r < 258" "p + ?r < length buffer" "?r < offset"
    and eq: "buffer ! (p - offset + ?r) = buffer ! (p + ?r)"
    by (auto simp: spec_run_def)
  from run_length_maximal [OF refl this(1,2,3) assms(2)] eq show False by simp
qed

lemma compress_from_prefixes:
  "position \<le> length data \<Longrightarrow> compress_from W data position = Inr cws \<Longrightarrow>
   decompress_codewords (take position data) (take n cws) =
     Inr (take (position + covered (take n cws)) data)"
proof (induction W data position arbitrary: cws n rule: compress_from.induct)
  case (1 W data position)
  show ?case
  proof (cases "position < length data")
    case False
    with "1.prems" have "cws = []"
      by (subst (asm) compress_from.simps) simp
    then show ?thesis by (simp add: covered_def)
  next
    case True
    from codeword_step [OF True, of W] obtain cw where
      cw: "codeword_for_position W data position = Inr cw"
      and nxt: "position + prefix_len cw < length data"
      and rep: "decompress_codeword (take position data) cw = Inr (take (position + (prefix_len cw + 1)) data)"
      by blast
    from compress_from_roundtrip [of "position + (prefix_len cw + 1)" data W] nxt
    obtain rest where rest: "compress_from W data (position + (prefix_len cw + 1)) = Inr rest"
      by auto
    have cws: "cws = cw # rest"
      using "1.prems"(2) True cw rest by (subst (asm) compress_from.simps) simp
    show ?thesis
    proof (cases n)
      case 0
      then show ?thesis by (simp add: covered_def)
    next
      case (Suc m)
      have "decompress_codewords (take (position + (prefix_len cw + 1)) data) (take m rest) =
              Inr (take (position + (prefix_len cw + 1) + covered (take m rest)) data)"
        using nxt by (intro "1.IH" [OF True cw _ rest]) simp
      then show ?thesis
        using Suc cws rep by (simp add: covered_def add.assoc)
    qed
  qed
qed

lemma compress_from_len_le_offset:
  "compress_from W data position = Inr cws \<Longrightarrow> cw \<in> set cws \<Longrightarrow>
   0 < prefix_start_offset cw \<Longrightarrow> prefix_len cw \<le> prefix_start_offset cw"
proof (induction W data position arbitrary: cws rule: compress_from.induct)
  case (1 W data position)
  show ?case
  proof (cases "position < length data")
    case False
    with "1.prems" show ?thesis
      by (subst (asm) compress_from.simps) simp
  next
    case True
    from codeword_step [OF True, of W] obtain c where
      c: "codeword_for_position W data position = Inr c"
      and le: "0 < prefix_start_offset c \<longrightarrow> prefix_len c \<le> prefix_start_offset c"
      by auto
    from "1.prems"(1) True c obtain rest where
      rest: "compress_from W data (position + (prefix_len c + 1)) = Inr rest" and cws: "cws = c # rest"
      by (subst (asm) compress_from.simps) (auto split: sum.splits)
    from "1.prems"(2) cws have "cw = c \<or> cw \<in> set rest" by auto
    then show ?thesis
    proof
      assume "cw = c"
      with le "1.prems"(3) show ?thesis by simp
    next
      assume "cw \<in> set rest"
      from "1.IH" [OF True c rest this "1.prems"(3)] show ?thesis .
    qed
  qed
qed


lemma copy_for_block:
  assumes "s + L \<le> length b0" and "i \<le> L"
  shows "copy_for (b0 @ take i (drop s b0)) (int s) [i ..< L] = Inr (b0 @ take L (drop s b0))"
  using assms(2)
proof (induction "L - i" arbitrary: i)
  case 0
  then show ?case by simp
next
  case (Suc n)
  then have i: "i < L" by simp
  let ?buf = "b0 @ take i (drop s b0)"
  have lt: "s + i < length b0" using i assms(1) by simp
  have "getitem ?buf (int (s + i)) = Inr (?buf ! (s + i))"
    by (rule getitem_nat) (use lt in simp)
  also have "?buf ! (s + i) = b0 ! (s + i)"
    using lt by (simp add: nth_append)
  finally have get: "getitem ?buf (int (s + i)) = Inr (b0 ! (s + i))" .
  have app: "?buf @ [b0 ! (s + i)] = b0 @ take (Suc i) (drop s b0)"
    using lt by (simp add: take_Suc_conv_app_nth)
  have IH: "copy_for (b0 @ take (Suc i) (drop s b0)) (int s) [Suc i ..< L] = Inr (b0 @ take L (drop s b0))"
    using Suc i by (intro Suc.hyps(1)) auto
  have guard: "\<not> int (length ?buf) \<le> int s + int i"
    using lt by simp
  have idx: "int s + int i = int (s + i)" by simp
  have "[i ..< L] = i # [Suc i ..< L]" using i by (simp add: upt_conv_Cons)
  then have "copy_for ?buf (int s) [i ..< L] =
               (case getitem ?buf (int (s + i)) of Inl e \<Rightarrow> Inl e
                | Inr b \<Rightarrow> copy_for (?buf @ [b]) (int s) [Suc i ..< L])"
    using guard by (simp del: of_nat_add add: idx [symmetric])
  then show ?case
    using get app IH by simp
qed

lemma decompress_codeword_block:
  assumes "0 < prefix_start_offset cw" and "prefix_len cw \<le> prefix_start_offset cw"
    and "prefix_start_offset cw \<le> length buffer"
  shows "decompress_codeword buffer cw =
           Inr (buffer @ take (prefix_len cw) (drop (length buffer - prefix_start_offset cw) buffer) @
                [character cw])"
proof -
  let ?s = "length buffer - prefix_start_offset cw"
  have "copy_for (buffer @ take 0 (drop ?s buffer)) (int ?s) [0 ..< prefix_len cw] =
          Inr (buffer @ take (prefix_len cw) (drop ?s buffer))"
    by (rule copy_for_block) (use assms in auto)
  then have cp: "copy_for buffer (int ?s) [0 ..< prefix_len cw] =
          Inr (buffer @ take (prefix_len cw) (drop ?s buffer))"
    by simp
  have start: "int (length buffer) - int (prefix_start_offset cw) = int ?s"
    using assms(3) by simp
  have "decompress_codeword buffer cw =
          (case copy_for buffer (int ?s) [0 ..< prefix_len cw] of
             Inl e \<Rightarrow> Inl e
           | Inr buffer' \<Rightarrow> Inr (buffer' @ [character cw]))"
    unfolding decompress_codeword_def Let_def start using assms(1) by simp
  then show ?thesis
    unfolding cp by simp
qed


section \<open>The matcher and the replay engine\<close>

text \<open>
  Claim C3. For every byte buffer \<open>b\<close> and every window size, the matcher returns a
  codeword sequence; the positions it advances by (\<open>prefix_len + 1\<close> per codeword) add up
  to exactly \<open>length b\<close>; replaying the sequence from the empty buffer gives \<open>b\<close>; and
  replaying the first \<open>n\<close> codewords gives exactly the first \<open>covered (take n cws)\<close> bytes
  of \<open>b\<close>, so codeword \<open>n\<close> accounts for the bytes from that position on, with no gap and
  no overlap.
\<close>

theorem compress_covers_and_replays:
  "\<exists>cws. compress W b = Inr cws \<and> covered cws = length b \<and>
         decompress_codewords [] cws = Inr b \<and>
         (\<forall>n. decompress_codewords [] (take n cws) = Inr (take (covered (take n cws)) b))"
proof -
  from compress_from_roundtrip [of 0 b W] obtain cws where
    cws: "compress_from W b 0 = Inr cws" and cov: "covered cws = length b"
    and dec: "decompress_codewords [] cws = Inr b"
    by auto
  have "decompress_codewords [] (take n cws) = Inr (take (covered (take n cws)) b)" for n
    using compress_from_prefixes [OF _ cws, of n] by simp
  with cws cov dec show ?thesis by (simp add: compress_def)
qed

theorem compress_covers_and_replays_witness:
  "compress 32768 [1, 2, 1, 2, 3] = Inr [Codeword 0 0 1, Codeword 0 0 2, Codeword 2 2 3] \<and>
   covered [Codeword 0 0 1, Codeword 0 0 2, Codeword 2 2 3] = length [1, 2, 1, 2, 3 :: byte] \<and>
   decompress_codewords [] [Codeword 0 0 1, Codeword 0 0 2, Codeword 2 2 3] = Inr [1, 2, 1, 2, 3]"
proof -
  have h: "compress 32768 [1, 2, 1, 2, 3] = Inr [Codeword 0 0 1, Codeword 0 0 2, Codeword 2 2 3]"
    by (simp add: compress_def compress_from.simps codeword_for_position_def getitem_def
          longest_match_def match_while.simps upt_rec)
  from compress_covers_and_replays [of 32768 "[1, 2, 1, 2, 3]"] h show ?thesis
    by auto
qed

text \<open>
  Claim C7. Whenever the best match found at position \<open>p\<close> has length \<open>L > 0\<close> and
  \<open>p + L\<close> is at or past the end of the buffer, \<^verbatim>\<open>codeword_for_position\<close> returns the
  literal-only codeword \<open>(0, 0, buffer[p])\<close>, and the generator continues at \<open>p + 1\<close>.
\<close>

theorem match_reaching_end_degrades_to_literal:
  assumes "longest_match W buffer p = (L, off)" and "0 < L" and "length buffer \<le> p + L"
  shows "codeword_for_position W buffer p = Inr (Codeword 0 0 (buffer ! p)) \<and>
         (\<exists>rest. compress_from W buffer p = Inr (Codeword 0 0 (buffer ! p) # rest) \<and>
                 compress_from W buffer (p + 1) = Inr rest)"
proof -
  from longest_match_spec [OF assms(1)] assms(2) have "run_length buffer p off = L" by simp
  with run_length_end [of buffer p off] assms(2) have "p + L \<le> length buffer" by simp
  with assms(2) have p: "p < length buffer" by simp
  have cw: "codeword_for_position W buffer p = Inr (Codeword 0 0 (buffer ! p))"
    using codeword_for_position_cases [OF p assms(1)] assms(3) by simp
  from compress_from_roundtrip [of "p + 1" buffer W] p obtain rest where
    rest: "compress_from W buffer (p + 1) = Inr rest" by auto
  have "compress_from W buffer p = Inr (Codeword 0 0 (buffer ! p) # rest)"
    using p cw rest by (subst compress_from.simps) simp
  with cw rest show ?thesis by simp
qed

theorem match_reaching_end_degrades_to_literal_witness:
  "longest_match 32768 [0, 0] 1 = (1, 1) \<and> (0::nat) < 1 \<and> length [0, 0 :: byte] \<le> 1 + 1 \<and>
   codeword_for_position 32768 [0, 0] 1 = Inr (Codeword 0 0 0) \<and>
   (\<exists>rest. compress_from 32768 [0, 0] 1 = Inr (Codeword 0 0 0 # rest) \<and>
           compress_from 32768 [0, 0] (1 + 1) = Inr rest)"
proof -
  have h: "longest_match 32768 [0, 0] 1 = (1, 1)"
    by (simp add: longest_match_def match_while.simps upt_rec)
  from match_reaching_end_degrades_to_literal [OF h] h show ?thesis
    by simp
qed

lemma longest_match_greatest:
  assumes "longest_match W buffer p = (L, off)" and "p \<le> length buffer"
  shows "(\<forall>offset \<in> {1 .. min p W}.
            spec_run buffer p offset (run_length buffer p offset) \<and>
            (\<forall>k. spec_run buffer p offset k \<longrightarrow> k \<le> run_length buffer p offset) \<and>
            run_length buffer p offset \<le> L) \<and>
         (if L = 0 then off = 0
          else off \<in> {1 .. min p W} \<and> run_length buffer p off = L \<and>
               (\<forall>offset \<in> {1 .. min p W}. run_length buffer p offset = L \<longrightarrow> off \<le> offset))"
proof -
  note spec = longest_match_spec [OF assms(1)]
  have "spec_run buffer p offset (run_length buffer p offset) \<and>
        (\<forall>k. spec_run buffer p offset k \<longrightarrow> k \<le> run_length buffer p offset) \<and>
        run_length buffer p offset \<le> L" if "offset \<in> {1 .. min p W}" for offset
    using that spec run_length_is_spec_run [OF assms(2), of offset]
      spec_run_le_run_length [of buffer p offset] by auto
  moreover have "if L = 0 then off = 0
          else off \<in> {1 .. min p W} \<and> run_length buffer p off = L \<and>
               (\<forall>offset \<in> {1 .. min p W}. run_length buffer p offset = L \<longrightarrow> off \<le> offset)"
  proof (cases "L = 0")
    case True
    with spec show ?thesis by simp
  next
    case False
    with spec have off: "off \<in> {1 .. min p W}" and run: "run_length buffer p off = L"
      and first: "\<forall>offset \<in> {1 .. min p W}. offset < off \<longrightarrow> run_length buffer p offset < L"
      by simp_all
    have "off \<le> offset" if "offset \<in> {1 .. min p W}" "run_length buffer p offset = L" for offset
    proof (rule ccontr)
      assume "\<not> off \<le> offset"
      then have "offset < off" by simp
      with first that(1) have "run_length buffer p offset < L" by blast
      with that(2) show False by simp
    qed
    with False off run show ?thesis by simp
  qed
  ultimately show ?thesis by blast
qed

text \<open>
  Claim C8. At every position \<open>p\<close> of the buffer \<^verbatim>\<open>codeword_for_position\<close> returns a
  codeword. For every candidate offset in \<open>1 .. min p W\<close> the run length the matcher
  computes is the greatest \<open>k\<close> that the buffer end, \<open>k = offset\<close> and 258 allow and for
  which the \<open>k\<close> bytes agree. When the codeword reports a match (\<open>prefix_len > 0\<close>), its
  offset is a candidate offset, its length is the run length at that offset, no candidate
  offset has a greater run length, every candidate offset with the same run length is at
  least as large as the reported one, and the literal is the byte after the match. When
  the codeword reports no match, either every candidate offset has run length 0, or the
  greatest run length reaches the end of the buffer.
\<close>

theorem reported_match_greatest_smallest_offset:
  assumes "p < length buffer"
  shows "\<exists>cw. codeword_for_position W buffer p = Inr cw \<and>
           (if 0 < prefix_len cw
            then prefix_start_offset cw \<in> {1 .. min p W} \<and>
                 run_length buffer p (prefix_start_offset cw) = prefix_len cw \<and>
                 (\<forall>offset \<in> {1 .. min p W}.
                    spec_run buffer p offset (run_length buffer p offset) \<and>
                    (\<forall>k. spec_run buffer p offset k \<longrightarrow> k \<le> run_length buffer p offset) \<and>
                    run_length buffer p offset \<le> prefix_len cw \<and>
                    (run_length buffer p offset = prefix_len cw \<longrightarrow> prefix_start_offset cw \<le> offset)) \<and>
                 p + prefix_len cw < length buffer \<and>
                 character cw = buffer ! (p + prefix_len cw)
            else prefix_start_offset cw = 0 \<and> character cw = buffer ! p \<and>
                 ((\<forall>offset \<in> {1 .. min p W}. run_length buffer p offset = 0) \<or>
                  (\<exists>offset \<in> {1 .. min p W}.
                     (\<forall>other \<in> {1 .. min p W}.
                        run_length buffer p other \<le> run_length buffer p offset) \<and>
                     length buffer \<le> p + run_length buffer p offset)))"
proof -
  obtain L off where lm: "longest_match W buffer p = (L, off)"
    by (cases "longest_match W buffer p")
  from assms have le: "p \<le> length buffer" by simp
  note g = longest_match_greatest [OF lm le]
  note cw = codeword_for_position_cases [OF assms lm]
  show ?thesis
  proof (cases "0 < L \<and> p + L < length buffer")
    case True
    with cw have "codeword_for_position W buffer p = Inr (Codeword off L (buffer ! (p + L)))"
      by simp
    moreover from True g have "off \<in> {1 .. min p W}" "run_length buffer p off = L"
      "\<forall>offset \<in> {1 .. min p W}. run_length buffer p offset = L \<longrightarrow> off \<le> offset"
      by simp_all
    ultimately show ?thesis
      using True g by (intro exI [of _ "Codeword off L (buffer ! (p + L))"]) simp
  next
    case False
    with cw have c: "codeword_for_position W buffer p = Inr (Codeword 0 0 (buffer ! p))"
      by simp
    have "(\<forall>offset \<in> {1 .. min p W}. run_length buffer p offset = 0) \<or>
          (\<exists>offset \<in> {1 .. min p W}.
             (\<forall>other \<in> {1 .. min p W}. run_length buffer p other \<le> run_length buffer p offset) \<and>
             length buffer \<le> p + run_length buffer p offset)"
    proof (cases "L = 0")
      case True
      with g have "\<forall>offset \<in> {1 .. min p W}. run_length buffer p offset = 0" by simp
      then show ?thesis ..
    next
      case L: False
      with g have off: "off \<in> {1 .. min p W}" and run: "run_length buffer p off = L"
        by simp_all
      from g run have all: "\<forall>other \<in> {1 .. min p W}. run_length buffer p other \<le> run_length buffer p off"
        by simp
      from L False have "length buffer \<le> p + L" by simp
      with off run all show ?thesis by blast
    qed
    with c show ?thesis
      by (intro exI [of _ "Codeword 0 0 (buffer ! p)"]) simp
  qed
qed

theorem reported_match_greatest_smallest_offset_witness:
  "(2::nat) < length [5, 5, 5, 7 :: byte] \<and>
   codeword_for_position 32768 [5, 5, 5, 7] 2 = Inr (Codeword 1 1 7) \<and>
   run_length [5, 5, 5, 7] 2 1 = 1 \<and> run_length [5, 5, 5, 7] 2 2 = 1 \<and>
   spec_run [5, 5, 5, 7] 2 2 (run_length [5, 5, 5, 7] 2 2) \<and>
   prefix_start_offset (Codeword 1 1 7) \<le> 2 \<and>
   character (Codeword 1 1 7) = [5, 5, 5, 7] ! (2 + 1)"
proof -
  have p: "(2::nat) < length [5, 5, 5, 7 :: byte]" by simp
  have c: "codeword_for_position 32768 [5, 5, 5, 7] 2 = Inr (Codeword 1 1 7)"
    by (simp add: codeword_for_position_def getitem_def longest_match_def match_while.simps upt_rec)
  have r2: "run_length [5, 5, 5, 7] 2 2 = 1"
    by (simp add: run_length_def match_while.simps)
  have m: "(2::nat) \<in> {1 .. min 2 32768}" by simp
  from reported_match_greatest_smallest_offset [OF p, of 32768] c
  have a: "run_length [5, 5, 5, 7] 2 (prefix_start_offset (Codeword 1 1 7)) = prefix_len (Codeword 1 1 7)"
    and b: "\<forall>offset \<in> {1 .. min 2 32768}.
          spec_run [5, 5, 5, 7] 2 offset (run_length [5, 5, 5, 7] 2 offset) \<and>
          (\<forall>k. spec_run [5, 5, 5, 7] 2 offset k \<longrightarrow> k \<le> run_length [5, 5, 5, 7] 2 offset) \<and>
          run_length [5, 5, 5, 7] 2 offset \<le> prefix_len (Codeword 1 1 7) \<and>
          (run_length [5, 5, 5, 7] 2 offset = prefix_len (Codeword 1 1 7) \<longrightarrow>
             prefix_start_offset (Codeword 1 1 7) \<le> offset)"
    and ch: "character (Codeword 1 1 7) = [5, 5, 5, 7] ! (2 + prefix_len (Codeword 1 1 7))"
    by auto
  from b m have s: "spec_run [5, 5, 5, 7] 2 2 (run_length [5, 5, 5, 7] 2 2)"
    and t: "run_length [5, 5, 5, 7] 2 2 = prefix_len (Codeword 1 1 7) \<longrightarrow>
             prefix_start_offset (Codeword 1 1 7) \<le> 2"
    by blast+
  from a have r1: "run_length [5, 5, 5, 7] 2 1 = 1" by simp
  from t r2 have o: "prefix_start_offset (Codeword 1 1 7) \<le> 2" by simp
  from ch have ch': "character (Codeword 1 1 7) = [5, 5, 5, 7] ! (2 + 1)" by simp
  show ?thesis
    by (intro conjI p c r1 r2 s o ch')
qed

text \<open>
  Claim C9. Every codeword the matcher emits with a non-zero offset has
  \<open>prefix_len \<le> prefix_start_offset\<close>. Replaying such a codeword on any buffer that is
  at least \<open>prefix_start_offset\<close> long is therefore a plain block copy: the bytes appended
  are a slice of the buffer as it was before the codeword, followed by the literal, and no
  byte appended by the codeword itself is read.
\<close>

theorem emitted_length_le_offset:
  assumes "compress W data = Inr cws" and "cw \<in> set cws" and "0 < prefix_start_offset cw"
  shows "prefix_len cw \<le> prefix_start_offset cw \<and>
         (\<forall>buffer. prefix_start_offset cw \<le> length buffer \<longrightarrow>
            decompress_codeword buffer cw =
              Inr (buffer @
                   take (prefix_len cw) (drop (length buffer - prefix_start_offset cw) buffer) @
                   [character cw]))"
proof -
  have le: "prefix_len cw \<le> prefix_start_offset cw"
    using assms compress_from_len_le_offset [of W data 0 cws cw] by (simp add: compress_def)
  with assms(3) show ?thesis
    by (simp add: decompress_codeword_block)
qed

theorem emitted_length_le_offset_witness:
  "compress 32768 [1, 2, 1, 2, 3] = Inr [Codeword 0 0 1, Codeword 0 0 2, Codeword 2 2 3] \<and>
   Codeword 2 2 3 \<in> set [Codeword 0 0 1, Codeword 0 0 2, Codeword 2 2 3] \<and>
   0 < prefix_start_offset (Codeword 2 2 3) \<and>
   prefix_len (Codeword 2 2 3) \<le> prefix_start_offset (Codeword 2 2 3) \<and>
   decompress_codeword [1, 2] (Codeword 2 2 3) = Inr [1, 2, 1, 2, 3]"
proof -
  have h: "compress 32768 [1, 2, 1, 2, 3] = Inr [Codeword 0 0 1, Codeword 0 0 2, Codeword 2 2 3]"
    by (simp add: compress_def compress_from.simps codeword_for_position_def getitem_def
          longest_match_def match_while.simps upt_rec)
  have m: "Codeword 2 2 3 \<in> set [Codeword 0 0 1, Codeword 0 0 2, Codeword 2 2 3]"
    by simp
  have o: "0 < prefix_start_offset (Codeword 2 2 3)"
    by simp
  have l: "prefix_start_offset (Codeword 2 2 3) \<le> length [1, 2 :: byte]"
    by simp
  from emitted_length_le_offset [OF h m o] l
  have "prefix_len (Codeword 2 2 3) \<le> prefix_start_offset (Codeword 2 2 3)"
    and "decompress_codeword [1, 2] (Codeword 2 2 3) =
           Inr ([1, 2] @
                take (prefix_len (Codeword 2 2 3))
                  (drop (length [1, 2 :: byte] - prefix_start_offset (Codeword 2 2 3)) [1, 2]) @
                [character (Codeword 2 2 3)])"
    by blast+
  with h m o show ?thesis
    by simp
qed

section \<open>The replay engine on offsets that reach before the buffer\<close>

text \<open>
  Claim C2. The claim says that a copy whose source index \<open>start + i\<close> is negative is cut
  short, never fails and never reads wrapped-around bytes. The guard of the loop only
  tests \<open>start + i \<ge> len(self.buffer)\<close>; a negative index goes on to the subscription.
  On the empty buffer the codeword \<open>(1, 1, 65)\<close> reads \<^verbatim>\<open>self.buffer[-1]\<close> and raises
  \<^verbatim>\<open>IndexError\<close>; on the buffer \<open>[65, 66]\<close> the codeword \<open>(3, 2, 67)\<close> reads
  \<^verbatim>\<open>self.buffer[-1]\<close>, the last byte, and copies it. The codeword
  \<open>(514, 514, 2)\<close> on the buffer \<open>[2, 2]\<close> is what \<^verbatim>\<open>decompress_file\<close> replays from the
  file \<^verbatim>\<open>compress_file\<close> writes for the input \<open>[2, 2]\<close>; it raises \<^verbatim>\<open>IndexError\<close> too.
\<close>

theorem replay_negative_source_index:
  "decompress_codeword [] (Codeword 1 1 65) = Inl IndexError \<and>
   decompress_codeword [65, 66] (Codeword 3 2 67) = Inr [65, 66, 66, 65, 67] \<and>
   decompress_codeword [2, 2] (Codeword 514 514 2) = Inl IndexError"
  by (simp add: decompress_codeword_def getitem_def upt_conv_Cons)

section \<open>The empty buffer\<close>

lemma replicate_4_add: "replicate (4 + n) x = x # x # x # x # replicate n x"
  by (simp add: eval_nat_numeral)

lemma write_counts_empty: "write_counts [] bs = Inr (replicate (4 * length bs) 0)"
  by (induction bs) (simp_all add: to_bytes4_def replicate_4_add dict_get_def)

lemma from_bytes_zeros: "from_bytes (replicate n 0) = 0"
proof -
  have "foldl (\<lambda>acc b. acc * 256 + unat (b :: byte)) 0 (replicate n 0) = 0"
    by (induction n) simp_all
  then show ?thesis by (simp add: from_bytes_def)
qed

lemma slice_replicate: "slice (replicate n x) i j = replicate (min (j - i) (n - i)) x"
  by (simp add: slice_def)

lemma read_counts_zeros: "read_counts (replicate n 0) bs freq = freq"
  by (induction bs arbitrary: freq) (simp_all add: slice_replicate from_bytes_zeros)

lemma compress_empty: "compress W [] = Inr []"
  by (simp add: compress_def compress_from.simps)

declare pack_bits.simps [simp del]

lemma pack_bits_empty: "pack_bits [] = Inr []"
  by (subst pack_bits.simps) simp

text \<open>
  Claim C6. Compressing the empty buffer gives exactly 1024 zero bytes and no payload.
  From a file that starts with 1024 zero bytes the decompressor reads an empty frequency
  dict, whatever follows the header, so no code table is built, \<^verbatim>\<open>decode\<close> is not
  called, and the result is the empty buffer.
\<close>

theorem empty_buffer_roundtrip:
  "compress_file [] = Inr (replicate 1024 0) \<and>
   read_freq (replicate 1024 0 @ payload) = [] \<and>
   build_codes (read_freq (replicate 1024 0 @ payload)) = [] \<and>
   decompress_file (replicate 1024 0 @ payload) = Inr []"
proof -
  have c: "compress_file [] = Inr (replicate 1024 0)"
    by (simp add: compress_file_def compress_empty Counter_def build_codes_def pack_bits_empty
          write_counts_empty)
  have r: "read_freq (replicate 1024 0 @ payload) = []"
    by (simp add: read_freq_def read_counts_zeros)
  have d: "decompress_file (replicate 1024 0 @ payload) = Inr []"
    by (simp add: decompress_file_def r build_codes_def)
  from c r d show ?thesis by (simp add: build_codes_def)
qed

section \<open>Reading the frequency header\<close>

lemma read_counts_other:
  "k \<notin> of_nat ` set bs \<Longrightarrow> map_of (read_counts fd bs freq) k = map_of freq k"
  by (induction bs arbitrary: freq) (auto simp: Let_def update_conv')

lemma read_counts_at:
  "distinct (map (of_nat :: nat \<Rightarrow> byte) bs) \<Longrightarrow> b \<in> set bs \<Longrightarrow>
   map_of (read_counts fd bs freq) (of_nat b) =
     (if 0 < counter_at fd b then Some (counter_at fd b) else map_of freq (of_nat b))"
proof (induction bs arbitrary: freq)
  case Nil
  then show ?case by simp
next
  case (Cons a bs)
  show ?case
  proof (cases "b = a")
    case True
    from Cons.prems(1) have "(of_nat a :: byte) \<notin> of_nat ` set bs" by simp
    then show ?thesis
      using True by (simp add: Let_def read_counts_other update_conv' counter_at_def)
  next
    case False
    with Cons.prems have b: "b \<in> set bs" and d: "distinct (map (of_nat :: nat \<Rightarrow> byte) bs)"
      and ne: "(of_nat a :: byte) \<noteq> of_nat b"
      by auto
    show ?thesis
      using Cons.IH [OF d b] ne by (simp add: Let_def update_conv' counter_at_def)
  qed
qed

lemma read_counts_distinct:
  "distinct (map fst freq) \<Longrightarrow> distinct (map fst (read_counts fd bs freq))"
  by (induction bs arbitrary: freq) (simp_all add: Let_def distinct_update)

lemma byte_range_distinct: "distinct (map (of_nat :: nat \<Rightarrow> byte) [0 ..< 256])"
proof -
  have "inj_on (of_nat :: nat \<Rightarrow> byte) {0 ..< 256}"
  proof (rule inj_onI)
    fix x y :: nat
    assume "x \<in> {0 ..< 256}" "y \<in> {0 ..< 256}" "(of_nat x :: byte) = of_nat y"
    then have "unat (of_nat x :: byte) = unat (of_nat y :: byte)" by simp
    with \<open>x \<in> _\<close> \<open>y \<in> _\<close> show "x = y" by (simp add: unat_of_nat)
  qed
  then show ?thesis by (simp add: distinct_map)
qed

lemma byte_of_unat: "unat (k :: byte) < 256 \<and> of_nat (unat k) = k"
proof -
  have "unat k < 2 ^ LENGTH(8)" by (rule unsigned_less)
  then show ?thesis by simp
qed

lemma read_freq_map_of:
  "map_of (read_freq input) k =
     (if 0 < counter_at (take 1024 input) (unat k) then Some (counter_at (take 1024 input) (unat k))
      else None)"
proof -
  have "unat k \<in> set [0 ..< 256]" using byte_of_unat [of k] by simp
  from read_counts_at [OF byte_range_distinct this, of "take 1024 input" "[]"]
  show ?thesis by (simp add: read_freq_def byte_of_unat)
qed

lemma read_freq_distinct: "distinct (map fst (read_freq input))"
  by (simp add: read_freq_def read_counts_distinct)

lemma decode_nil: "decode codec [] = []"
  by (simp add: decode_def)

text \<open>
  Claim C10, as amended. For every input shorter than 1024 bytes the payload is empty and
  \<^verbatim>\<open>decompress_file\<close> returns the empty buffer without an error. Each counter is the
  big-endian value of the bytes of its slot that are present; a slot that lies entirely
  beyond the input is an empty slice, reads as 0 and gives no key in the frequency dict.
\<close>

theorem short_input_decompresses_to_empty:
  assumes "length input < 1024"
  shows "drop 1024 input = [] \<and> decompress_file input = Inr [] \<and>
         (\<forall>b. counter_at (take 1024 input) b = from_bytes (take 4 (drop (b * 4) input))) \<and>
         (\<forall>b < 256. length input \<le> b * 4 \<longrightarrow>
            counter_at (take 1024 input) b = 0 \<and> map_of (read_freq input) (of_nat b) = None)"
proof -
  have v: "counter_at (take 1024 input) b = from_bytes (take 4 (drop (b * 4) input))" for b
    using assms by (simp add: counter_at_def slice_def)
  have p: "drop 1024 input = []" using assms by simp
  have d: "decompress_file input = Inr []"
    by (simp add: decompress_file_def p decode_nil Let_def)
  have "counter_at (take 1024 input) b = 0 \<and> map_of (read_freq input) (of_nat b) = None"
    if "b < 256" "length input \<le> b * 4" for b
  proof -
    have c: "counter_at (take 1024 input) b = 0"
      using that(2) by (simp add: counter_at_def slice_def from_bytes_def)
    have "unat (of_nat b :: byte) = b" using that(1) by (simp add: unat_of_nat)
    with c show ?thesis by (simp add: read_freq_map_of)
  qed
  with p d v show ?thesis by blast
qed

text \<open>
  The claim as stated also says that a short slice parses as count 0. The one-byte input
  \<open>[5]\<close> has a short slice for the byte value 0, and its counter is 5.
\<close>

theorem short_slice_counterexample:
  "length [5 :: byte] < 1024 \<and> length (slice (take 1024 [5 :: byte]) (0 * 4) ((0 + 1) * 4)) < 4 \<and>
   from_bytes (slice (take 1024 [5]) (0 * 4) ((0 + 1) * 4)) = 5 \<and>
   map_of (read_freq [5]) 0 = Some 5"
proof -
  have c: "counter_at (take 1024 [5]) (unat (0 :: byte)) = 5"
    by (simp add: counter_at_def slice_def from_bytes_def)
  have "map_of (read_freq [5]) 0 = Some 5"
    by (simp only: read_freq_map_of c) simp
  then show ?thesis by (simp add: slice_def from_bytes_def)
qed

theorem short_input_decompresses_to_empty_witness:
  "length [0, 0, 0, 7, 1 :: byte] < 1024 \<and> decompress_file [0, 0, 0, 7, 1] = Inr [] \<and>
   counter_at (take 1024 [0, 0, 0, 7, 1]) 2 = 0 \<and>
   map_of (read_freq [0, 0, 0, 7, 1]) (of_nat 2) = None"
proof -
  have h: "length [0, 0, 0, 7, 1 :: byte] < 1024" by simp
  have b: "(2::nat) < 256" "length [0, 0, 0, 7, 1 :: byte] \<le> 2 * 4" by simp_all
  from short_input_decompresses_to_empty [OF h] b h show ?thesis by blast
qed

section \<open>The frequency header and the code table\<close>

lemma unat_byte_of_nat: "n < 256 \<Longrightarrow> unat (of_nat n :: byte) = n"
  by (simp add: unat_of_nat)

lemma from_bytes_quad:
  "from_bytes [a, b, c, d] = ((unat a * 256 + unat b) * 256 + unat c) * 256 + unat d"
  by (simp add: from_bytes_def)

lemma to_bytes4_Inr:
  assumes "to_bytes4 n = Inr q"
  shows "n < 2 ^ 32 \<and> length q = 4 \<and> from_bytes q = n"
proof -
  from assms have n: "n < 2 ^ 32"
    and q: "q = [of_nat (n div 2 ^ 24), of_nat (n div 2 ^ 16 mod 256),
                 of_nat (n div 2 ^ 8 mod 256), of_nat (n mod 256)]"
    by (auto simp: to_bytes4_def split: if_splits)
  from n have hi: "n div 2 ^ 24 < 256" by (simp add: less_mult_imp_div_less)
  have "from_bytes q =
        ((n div 2 ^ 24 * 256 + n div 2 ^ 16 mod 256) * 256 + n div 2 ^ 8 mod 256) * 256 + n mod 256"
    unfolding q from_bytes_quad using hi by (simp add: unat_byte_of_nat)
  also have "\<dots> = n"
  proof -
    have p: "(2::nat) ^ 8 = 256" "(2::nat) ^ 16 = 256 * 256" "(2::nat) ^ 24 = 256 * (256 * 256)"
      by simp_all
    have e: "n div 2 ^ 8 = n div 256" "n div 2 ^ 16 = n div 256 div 256"
      "n div 2 ^ 24 = n div 256 div 256 div 256"
      unfolding p by (simp_all only: div_mult2_eq)
    show ?thesis
      unfolding e by (simp only: div_mult_mod_eq)
  qed
  finally show ?thesis using n q by simp
qed

lemma write_counts_Inr:
  "write_counts freq bs = Inr header \<Longrightarrow>
   length header = 4 * length bs \<and>
   (\<forall>i < length bs. from_bytes (take 4 (drop (i * 4) header)) = dict_get freq (of_nat (bs ! i)) 0)"
proof (induction bs arbitrary: header)
  case Nil
  then show ?case by simp
next
  case (Cons b bs)
  from Cons.prems obtain quad rest where
    q: "to_bytes4 (dict_get freq (of_nat b) 0) = Inr quad"
    and r: "write_counts freq bs = Inr rest" and h: "header = quad @ rest"
    by (auto simp: Let_def split: sum.splits)
  from to_bytes4_Inr [OF q] have lq: "length quad = 4"
    and fq: "from_bytes quad = dict_get freq (of_nat b) 0" by simp_all
  from Cons.IH [OF r] have lr: "length rest = 4 * length bs"
    and fr: "\<forall>i < length bs. from_bytes (take 4 (drop (i * 4) rest)) = dict_get freq (of_nat (bs ! i)) 0"
    by simp_all
  have "from_bytes (take 4 (drop (i * 4) header)) = dict_get freq (of_nat ((b # bs) ! i)) 0"
    if "i < length (b # bs)" for i
  proof (cases i)
    case 0
    then show ?thesis using h lq fq by simp
  next
    case (Suc j)
    with that have "j < length bs" by simp
    with fr have "from_bytes (take 4 (drop (j * 4) rest)) = dict_get freq (of_nat (bs ! j)) 0"
      by simp
    then show ?thesis using Suc h lq by simp
  qed
  with h lq lr show ?case by simp
qed

lemma write_counts_total:
  "\<forall>b \<in> set bs. dict_get freq (of_nat b) 0 < 2 ^ 32 \<Longrightarrow> \<exists>header. write_counts freq bs = Inr header"
proof (induction bs)
  case Nil
  then show ?case by simp
next
  case (Cons b bs)
  then obtain rest where "write_counts freq bs = Inr rest" by auto
  moreover from Cons.prems have "dict_get freq (of_nat b) 0 < 2 ^ 32" by simp
  ultimately show ?case by (simp add: Let_def to_bytes4_def)
qed

lemma counter_at_header:
  assumes "write_counts freq [0 ..< 256] = Inr header" and "b < 256"
  shows "counter_at (take 1024 (header @ payload)) b = dict_get freq (of_nat b) 0"
proof -
  from write_counts_Inr [OF assms(1)] assms(2) have len: "length header = 1024"
    and v: "from_bytes (take 4 (drop (b * 4) header)) = dict_get freq (of_nat b) 0"
    by simp_all
  from len show ?thesis
    by (simp add: counter_at_def slice_def v)
qed

lemma read_freq_of_header:
  assumes "write_counts freq [0 ..< 256] = Inr header" and "positive_counts freq"
  shows "map_of (read_freq (header @ payload)) = map_of freq"
proof
  fix k :: byte
  have "counter_at (take 1024 (header @ payload)) (unat k) = dict_get freq k 0"
    using counter_at_header [OF assms(1), of "unat k" payload] byte_of_unat [of k] by simp
  then have "map_of (read_freq (header @ payload)) k =
             (if 0 < dict_get freq k 0 then Some (dict_get freq k 0) else None)"
    by (simp only: read_freq_map_of)
  also have "\<dots> = map_of freq k"
    using assms(2) by (cases "map_of freq k") (auto simp: dict_get_def positive_counts_def)
  finally show "map_of (read_freq (header @ payload)) k = map_of freq k" .
qed

lemma Counter_fold_props:
  "distinct (map fst d) \<Longrightarrow> positive_counts d \<Longrightarrow>
   distinct (map fst (fold (\<lambda>elem d. AList.update elem (dict_get d elem 0 + 1) d) symbols d)) \<and>
   positive_counts (fold (\<lambda>elem d. AList.update elem (dict_get d elem 0 + 1) d) symbols d)"
proof (induction symbols arbitrary: d)
  case Nil
  then show ?case by simp
next
  case (Cons s symbols)
  have "distinct (map fst (AList.update s (dict_get d s 0 + 1) d))"
    using Cons.prems(1) by (simp add: distinct_update)
  moreover have "positive_counts (AList.update s (dict_get d s 0 + 1) d)"
    using Cons.prems(2) by (auto simp: positive_counts_def update_conv')
  ultimately show ?case using Cons.IH by simp
qed

lemma Counter_props: "distinct (map fst (Counter symbols)) \<and> positive_counts (Counter symbols)"
  unfolding Counter_def by (rule Counter_fold_props) (simp_all add: positive_counts_def)

lemma dict_items_mset:
  assumes "distinct (map fst xs)" "distinct (map fst ys)" "map_of xs = map_of ys"
  shows "mset xs = mset ys"
proof -
  from assms have "set xs = set ys" by (simp add: map_of_inject_set)
  moreover from assms(1,2) have "distinct xs" "distinct ys" by (auto simp: distinct_map)
  ultimately show ?thesis by (simp add: set_eq_iff_mset_eq_distinct)
qed

lemma heap_fold_sort:
  "fold (\<lambda>(symbol, freq) heap. heappush heap (freq, [symbol])) frequencies [] =
   sort (map (\<lambda>(symbol, freq). (freq, [symbol])) frequencies)"
proof -
  have "fold (\<lambda>(symbol, freq) heap. heappush heap (freq, [symbol])) frequencies heap =
        fold insort (map (\<lambda>(symbol, freq). (freq, [symbol])) frequencies) heap" for heap
    by (induction frequencies arbitrary: heap) (auto simp: heappush_def)
  then show ?thesis by (simp add: sort_conv_fold)
qed

lemma huffman_items_only:
  assumes "mset f1 = mset f2"
  shows "huffman f1 = huffman f2"
proof -
  let ?g = "\<lambda>(symbol, freq). (freq, [symbol])"
  from assms have "mset (map ?g f1) = mset (map ?g f2)" by simp
  then have heap: "sort (map ?g f1) = sort (map ?g f2)"
    by (intro properties_for_sort) simp_all
  from assms have len: "length f1 = length f2" by (rule mset_eq_length)
  have hd: "hd f1 = hd f2" if "length f1 = 1"
  proof -
    from that obtain x where x: "f1 = [x]" by (cases f1) auto
    with assms have "mset f2 = {#x#}" by simp
    then have "f2 = [x]" by simp
    with x show ?thesis by simp
  qed
  show ?thesis
    using heap len hd by (auto simp: huffman_def heap_fold_sort Let_def)
qed

lemma build_codes_read_back:
  assumes "write_counts (Counter symbols) [0 ..< 256] = Inr header"
  shows "map_of (read_freq (header @ payload)) = map_of (Counter symbols) \<and>
         build_codes (read_freq (header @ payload)) = build_codes (Counter symbols)"
proof -
  note cp = Counter_props [of symbols]
  have m: "map_of (read_freq (header @ payload)) = map_of (Counter symbols)"
    using assms cp by (intro read_freq_of_header) simp_all
  have ms: "mset (read_freq (header @ payload)) = mset (Counter symbols)"
    using cp m by (intro dict_items_mset read_freq_distinct) simp_all
  then have e: "read_freq (header @ payload) = [] \<longleftrightarrow> Counter symbols = []"
    by (metis mset_zero_iff)
  from huffman_items_only [OF ms] e m show ?thesis
    by (simp add: build_codes_def)
qed

lemma compress_file_Inr:
  assumes "compress_file data = Inr out"
  shows "\<exists>freq header payload. compressor_freq data = Inr freq \<and>
           write_counts freq [0 ..< 256] = Inr header \<and> out = header @ payload \<and>
           (\<exists>symbols. freq = Counter symbols)"
proof -
  from assms obtain codewords where c: "compress 32768 data = Inr codewords"
    by (cases "compress 32768 data") (simp_all add: compress_file_def)
  from assms c obtain serialized where s: "serialize codewords = Inr serialized"
    by (cases "serialize codewords") (simp_all add: compress_file_def)
  let ?freq = "Counter serialized"
  let ?cs = "build_codes ?freq"
  let ?enc = "if ?cs \<noteq> [] then encode (build_codec ?cs) serialized else Inr []"
  from assms c s obtain encoded_bits where e: "?enc = Inr encoded_bits"
    by (cases ?enc) (simp_all add: compress_file_def Let_def)
  let ?bits = "encoded_bits @ replicate ((8 - length encoded_bits mod 8) mod 8) (CHR ''0'')"
  from assms c s e obtain bytes_out where p: "pack_bits ?bits = Inr bytes_out"
    by (cases "pack_bits ?bits") (simp_all add: compress_file_def Let_def)
  from assms c s e p obtain header where h: "write_counts ?freq [0 ..< 256] = Inr header"
    by (cases "write_counts ?freq [0 ..< 256]") (simp_all add: compress_file_def Let_def)
  from assms c s e p h have "out = header @ bytes_out"
    by (simp add: compress_file_def Let_def)
  with c s h show ?thesis
    by (auto simp: compressor_freq_def)
qed

text \<open>
  Claim C5. \<^verbatim>\<open>huffman\<close> is a function of the frequency mapping alone: two dicts that hold
  the same items, in whatever insertion order, give the same code table (and, being a
  function, the same input always gives the same table and \<^verbatim>\<open>compress_file\<close> the same
  bytes). Whenever \<^verbatim>\<open>compress_file\<close> writes a file, the frequency dict the decompressor
  reads back from the 256 counters holds the same items as the compressor's, and the code
  table the decompressor builds from it is identical to the compressor's.
\<close>

theorem code_table_rebuilt_from_header:
  "(\<forall>f1 f2 :: (byte, nat) dict.
      distinct (map fst f1) \<longrightarrow> distinct (map fst f2) \<longrightarrow> map_of f1 = map_of f2 \<longrightarrow>
      huffman f1 = huffman f2) \<and>
   (\<forall>out. compress_file data = Inr out \<longrightarrow>
      (\<exists>freq. compressor_freq data = Inr freq \<and>
              map_of (read_freq out) = map_of freq \<and>
              build_codes (read_freq out) = build_codes freq))"
proof (intro conjI allI impI)
  fix f1 f2 :: "(byte, nat) dict"
  assume "distinct (map fst f1)" "distinct (map fst f2)" "map_of f1 = map_of f2"
  then have "mset f1 = mset f2" by (rule dict_items_mset)
  then show "huffman f1 = huffman f2" by (rule huffman_items_only)
next
  fix out
  assume "compress_file data = Inr out"
  from compress_file_Inr [OF this] obtain header payload symbols where
    f: "compressor_freq data = Inr (Counter symbols)"
    and h: "write_counts (Counter symbols) [0 ..< 256] = Inr header" and o: "out = header @ payload"
    by auto
  from build_codes_read_back [OF h, of payload] f o
  show "\<exists>freq. compressor_freq data = Inr freq \<and> map_of (read_freq out) = map_of freq \<and>
              build_codes (read_freq out) = build_codes freq"
    by auto
qed

lemma replicate_numeral: "replicate (numeral n) x = x # replicate (pred_numeral n) x"
  by (simp add: numeral_eq_Suc)

lemma compress_22: "compress 32768 [2, 2] = Inr [Codeword 0 0 2, Codeword 0 0 2]"
  by (simp add: compress_def compress_from.simps codeword_for_position_def getitem_def
        longest_match_def match_while.simps upt_rec)

lemma Counter_22: "Counter [0, 0, 0, 0, 2, 0, 0, 0, 0, 2 :: byte] = [(0, 8), (2, 2)]"
  by (simp add: Counter_def dict_get_def)

lemma huffman_22: "huffman [(0 :: byte, 8 :: nat), (2, 2)] = [(2, ''0''), (0, ''1'')]"
  by (simp add: huffman_def heappush_def prepend_bit_def getitem_defaultdict_str_def)

lemma compress_file_22:
  "\<exists>header. compress_file [2, 2] = Inr (header @ [247, 128])"
proof -
  have "\<forall>b \<in> set [0 ..< 256]. dict_get [(0 :: byte, 8 :: nat), (2, 2)] (of_nat b) 0 < 2 ^ 32"
    by (simp add: dict_get_def)
  from write_counts_total [OF this] obtain header where
    h: "write_counts [(0 :: byte, 8 :: nat), (2, 2)] [0 ..< 256] = Inr header" by blast
  have "compress_file [2, 2] = Inr (header @ [247, 128])"
    by (simp add: compress_file_def compress_22 pack_HHB_def Counter_22 build_codes_def huffman_22
          build_codec_def Codec_def codec_update_def pack_bits.simps int_base2_def h Let_def
          replicate_numeral)
  then show ?thesis by blast
qed

theorem code_table_rebuilt_from_header_witness:
  "\<exists>out. compress_file [2, 2] = Inr out \<and> compressor_freq [2, 2] = Inr [(0, 8), (2, 2)] \<and>
         build_codes (read_freq out) = [(2, ''0''), (0, ''1'')] \<and>
         huffman [(2 :: byte, 2 :: nat), (0, 8)] = huffman [(0, 8), (2, 2)]"
proof -
  from compress_file_22 obtain out where o: "compress_file [2, 2] = Inr out" by blast
  have f: "compressor_freq [2, 2] = Inr [(0, 8), (2, 2)]"
    by (simp add: compressor_freq_def compress_22 pack_HHB_def Counter_22)
  have m: "map_of [(2 :: byte, 2 :: nat), (0, 8)] = map_of [(0, 8), (2, 2)]"
    by (rule ext) simp
  have d: "distinct (map fst [(2 :: byte, 2 :: nat), (0, 8)])"
    "distinct (map fst [(0 :: byte, 8 :: nat), (2, 2)])"
    by simp_all
  from code_table_rebuilt_from_header [of "[2, 2]"] o f m d
  have "build_codes (read_freq out) = build_codes [(0, 8), (2, 2)]"
    and "huffman [(2 :: byte, 2 :: nat), (0, 8)] = huffman [(0, 8), (2, 2)]"
    by auto
  with o f show ?thesis by (auto simp: build_codes_def huffman_22)
qed

section \<open>The round trip of the whole pipeline\<close>

lemma compress_00: "compress 32768 [0, 0] = Inr [Codeword 0 0 0, Codeword 0 0 0]"
  by (simp add: compress_def compress_from.simps codeword_for_position_def getitem_def
        longest_match_def match_while.simps upt_rec)

lemma Counter_00: "Counter [0, 0, 0, 0, 0, 0, 0, 0, 0, 0 :: byte] = [(0, 10)]"
  by (simp add: Counter_def dict_get_def)

lemma huffman_00: "huffman [(0 :: byte, 10 :: nat)] = [(0, ''0'')]"
  by (simp add: huffman_def heappush_def)

lemma decompress_after_header:
  assumes "write_counts (Counter symbols) [0 ..< 256] = Inr header"
  shows "decompress_file (header @ payload) =
           (let cs = build_codes (Counter symbols);
                decoded_symbols =
                  (if cs \<noteq> [] then decode (build_codec cs) (concat (map format_08b payload)) else [])
            in decompress_codewords [] (unpack_chunks (if cs \<noteq> [] then decoded_symbols else [])))"
proof -
  from write_counts_Inr [OF assms] have "length header = 1024" by simp
  then show ?thesis
    using build_codes_read_back [OF assms, of payload]
    by (simp add: decompress_file_def Let_def)
qed

lemma roundtrip_00: "roundtrip [0, 0] = Inr [0, 0, 0]"
proof -
  have "\<forall>b \<in> set [0 ..< 256]. dict_get [(0 :: byte, 10 :: nat)] (of_nat b) 0 < 2 ^ 32"
    by (simp add: dict_get_def)
  from write_counts_total [OF this] obtain header where
    h: "write_counts [(0 :: byte, 10 :: nat)] [0 ..< 256] = Inr header" by blast
  have c: "compress_file [0, 0] = Inr (header @ [0, 0])"
    by (simp add: compress_file_def compress_00 pack_HHB_def Counter_00 build_codes_def huffman_00
          build_codec_def Codec_def codec_update_def pack_bits.simps int_base2_def h Let_def
          replicate_numeral)
  from h have h': "write_counts (Counter [0, 0, 0, 0, 0, 0, 0, 0, 0, 0 :: byte]) [0 ..< 256] = Inr header"
    by (simp only: Counter_00)
  have d: "decompress_file (header @ [0, 0]) = Inr [0, 0, 0]"
    by (simp add: decompress_after_header [OF h'] Counter_00 build_codes_def huffman_00
          build_codec_def Codec_def codec_update_def format_08b_def decode_def
          decompress_codeword_def Let_def)
  from c d show ?thesis by (simp add: roundtrip_def)
qed

lemma copy_for_first_out_of_range:
  "0 < n \<Longrightarrow> start < - int (length buffer) \<Longrightarrow> copy_for buffer start [0 ..< n] = Inl IndexError"
  by (simp add: upt_conv_Cons getitem_def)

lemma roundtrip_22: "roundtrip [2, 2] = Inl IndexError"
proof -
  have "\<forall>b \<in> set [0 ..< 256]. dict_get [(0 :: byte, 8 :: nat), (2, 2)] (of_nat b) 0 < 2 ^ 32"
    by (simp add: dict_get_def)
  from write_counts_total [OF this] obtain header where
    h: "write_counts [(0 :: byte, 8 :: nat), (2, 2)] [0 ..< 256] = Inr header" by blast
  have c: "compress_file [2, 2] = Inr (header @ [247, 128])"
    by (simp add: compress_file_def compress_22 pack_HHB_def Counter_22 build_codes_def huffman_22
          build_codec_def Codec_def codec_update_def pack_bits.simps int_base2_def h Let_def
          replicate_numeral)
  from h have h': "write_counts (Counter [0, 0, 0, 0, 2, 0, 0, 0, 0, 2 :: byte]) [0 ..< 256] = Inr header"
    by (simp only: Counter_22)
  have b: "format_08b 247 = ''11110111''" "format_08b 128 = ''10000000''"
    by (simp_all add: format_08b_def bit_numeral_simps)
  have d: "decompress_file (header @ [247, 128]) = Inl IndexError"
    by (simp add: decompress_after_header [OF h'] Counter_22 build_codes_def huffman_22
          build_codec_def Codec_def codec_update_def b decode_def
          decompress_codeword_def Let_def copy_for_first_out_of_range)
  from c d show ?thesis by (simp add: roundtrip_def)
qed

text \<open>
  Claim C1. The round trip does not hold for every buffer. The file stores neither the
  length of the input nor the number of codewords, and the zero bits that pad the last
  byte are decoded like any others. For the two bytes \<open>[0, 0]\<close> the only code is
  \<^verbatim>\<open>'0'\<close>: the 6 padding bits decode to 6 more symbols, which complete a third record,
  and the result is three zero bytes. For \<open>[2, 2]\<close> the padding decodes to the record
  \<open>(514, 514, 2)\<close>, whose copy reads before the start of the buffer, and
  \<^verbatim>\<open>decompress_file\<close> raises \<^verbatim>\<open>IndexError\<close>.
\<close>

theorem roundtrip_failing_inputs:
  "roundtrip [0, 0] = Inr [0, 0, 0] \<and> roundtrip [2, 2] = Inl IndexError"
  using roundtrip_00 roundtrip_22 by simp

section \<open>The Huffman builder\<close>

lemma code_update:
  "getitem_defaultdict_str (AList.update k v d) s = (if s = k then v else getitem_defaultdict_str d s)"
  by (simp add: getitem_defaultdict_str_def update_conv')

lemma prepend_bit_Cons:
  "prepend_bit b (s # syms) d =
     prepend_bit b syms (AList.update s (b # getitem_defaultdict_str d s) d)"
  by (simp add: prepend_bit_def)

lemma prepend_bit_Nil: "prepend_bit b [] d = d"
  by (simp add: prepend_bit_def)

lemma prepend_bit_other:
  "s \<notin> set syms \<Longrightarrow> getitem_defaultdict_str (prepend_bit b syms d) s = getitem_defaultdict_str d s"
  by (induction syms arbitrary: d) (auto simp: prepend_bit_Nil prepend_bit_Cons code_update)

lemma prepend_bit_member:
  "distinct syms \<Longrightarrow> s \<in> set syms \<Longrightarrow>
   getitem_defaultdict_str (prepend_bit b syms d) s = b # getitem_defaultdict_str d s"
proof (induction syms arbitrary: d)
  case Nil
  then show ?case by simp
next
  case (Cons a syms)
  show ?case
  proof (cases "s = a")
    case True
    with Cons.prems have "s \<notin> set syms" by simp
    then show ?thesis using True
      by (simp add: prepend_bit_Cons prepend_bit_other code_update)
  next
    case False
    with Cons.prems have "distinct syms" "s \<in> set syms" by auto
    from Cons.IH [OF this] False show ?thesis
      by (simp add: prepend_bit_Cons code_update)
  qed
qed

lemma keys_update: "fst ` set (AList.update k v d) = insert k (fst ` set d)"
  using dom_update [of k v d] by (simp add: dom_map_of_conv_image_fst)

lemma prepend_bit_keys: "fst ` set (prepend_bit b syms d) = set syms \<union> fst ` set d"
  by (induction syms arbitrary: d) (auto simp: prepend_bit_Nil prepend_bit_Cons keys_update)

lemma prepend_bit_distinct:
  "distinct (map fst d) \<Longrightarrow> distinct (map fst (prepend_bit b syms d))"
  by (induction syms arbitrary: d) (simp_all add: prepend_bit_Nil prepend_bit_Cons distinct_update)

lemma heappush_symbols:
  "mset (concat (map snd (heappush heap item))) = mset (snd item) + mset (concat (map snd heap))"
  unfolding heappush_def by (induction heap) (simp_all add: ac_simps)

lemma heappush_groups: "snd ` set (heappush heap item) = insert (snd item) (snd ` set heap)"
  by (simp add: heappush_def set_insort_key)

lemma group_ok_unchanged:
  assumes "group_ok d g" and "\<forall>s \<in> set g. getitem_defaultdict_str d' s = getitem_defaultdict_str d s"
  shows "group_ok d' g"
  using assms unfolding group_ok_def by simp

lemma group_ok_merge:
  assumes g1: "group_ok d sym1" and g2: "group_ok d sym2"
    and dist: "distinct (sym1 @ sym2)"
    and c1: "\<forall>s \<in> set sym1. getitem_defaultdict_str d' s = CHR ''0'' # getitem_defaultdict_str d s"
    and c2: "\<forall>s \<in> set sym2. getitem_defaultdict_str d' s = CHR ''1'' # getitem_defaultdict_str d s"
  shows "group_ok d' (sym1 @ sym2)"
  unfolding group_ok_def
proof (intro conjI ballI impI)
  fix s t
  assume s: "s \<in> set (sym1 @ sym2)" and t: "t \<in> set (sym1 @ sym2)" and ne: "s \<noteq> t"
  show "\<not> prefix (getitem_defaultdict_str d' s) (getitem_defaultdict_str d' t)"
  proof (cases "s \<in> set sym1")
    case s1: True
    show ?thesis
    proof (cases "t \<in> set sym1")
      case True
      with s1 ne g1 c1 show ?thesis by (simp add: group_ok_def)
    next
      case False
      with t have "t \<in> set sym2" by simp
      with s1 c1 c2 show ?thesis by simp
    qed
  next
    case False
    with s have s2: "s \<in> set sym2" by simp
    show ?thesis
    proof (cases "t \<in> set sym2")
      case True
      with s2 ne g2 c2 show ?thesis by (simp add: group_ok_def)
    next
      case False
      with t have "t \<in> set sym1" by simp
      with s2 c1 c2 show ?thesis by simp
    qed
  qed
next
  fix s
  assume "s \<in> set (sym1 @ sym2)" and "getitem_defaultdict_str d' s = []"
  with c1 c2 show "sym1 @ sym2 = [s]" by auto
qed

lemma huff_inv_step:
  assumes "huff_inv ((freq1, sym1) # (freq2, sym2) # heap) d"
  shows "huff_inv (heappush heap (freq1 + freq2, sym1 @ sym2))
           (prepend_bit (CHR ''1'') sym2 (prepend_bit (CHR ''0'') sym1 d))"
proof -
  let ?d1 = "prepend_bit (CHR ''0'') sym1 d"
  let ?d2 = "prepend_bit (CHR ''1'') sym2 ?d1"
  let ?heap = "heappush heap (freq1 + freq2, sym1 @ sym2)"
  from assms have dist: "distinct (sym1 @ sym2 @ concat (map snd heap))"
    and g1: "group_ok d sym1" and g2: "group_ok d sym2"
    and gs: "\<forall>g \<in> snd ` set heap. group_ok d g"
    and keys: "fst ` set d \<subseteq> set (sym1 @ sym2 @ concat (map snd heap))"
    and dd: "distinct (map fst d)"
    by (simp_all add: huff_inv_def)
  from dist have d1: "distinct sym1" and d2: "distinct sym2" and d12: "set sym1 \<inter> set sym2 = {}"
    and rest: "(set sym1 \<union> set sym2) \<inter> set (concat (map snd heap)) = {}"
    by auto
  have c1: "\<forall>s \<in> set sym1. getitem_defaultdict_str ?d2 s = CHR ''0'' # getitem_defaultdict_str d s"
  proof
    fix s
    assume s: "s \<in> set sym1"
    with d12 have "s \<notin> set sym2" by auto
    then have "getitem_defaultdict_str ?d2 s = getitem_defaultdict_str ?d1 s"
      by (rule prepend_bit_other)
    also have "\<dots> = CHR ''0'' # getitem_defaultdict_str d s"
      using d1 s by (rule prepend_bit_member)
    finally show "getitem_defaultdict_str ?d2 s = CHR ''0'' # getitem_defaultdict_str d s" .
  qed
  have c2: "\<forall>s \<in> set sym2. getitem_defaultdict_str ?d2 s = CHR ''1'' # getitem_defaultdict_str d s"
  proof
    fix s
    assume s: "s \<in> set sym2"
    with d12 have "s \<notin> set sym1" by auto
    then have "getitem_defaultdict_str ?d1 s = getitem_defaultdict_str d s"
      by (rule prepend_bit_other)
    moreover have "getitem_defaultdict_str ?d2 s = CHR ''1'' # getitem_defaultdict_str ?d1 s"
      using d2 s by (rule prepend_bit_member)
    ultimately show "getitem_defaultdict_str ?d2 s = CHR ''1'' # getitem_defaultdict_str d s"
      by simp
  qed
  have c3: "getitem_defaultdict_str ?d2 s = getitem_defaultdict_str d s"
    if "s \<notin> set sym1" "s \<notin> set sym2" for s
    using that by (simp add: prepend_bit_other)
  have ms: "mset (concat (map snd ?heap)) = mset (sym1 @ sym2 @ concat (map snd heap))"
    by (simp add: heappush_symbols)
  have "distinct (concat (map snd ?heap))"
    using dist mset_eq_imp_distinct_iff [OF ms] by simp
  moreover have "\<forall>g \<in> snd ` set ?heap. group_ok ?d2 g"
  proof
    fix g
    assume "g \<in> snd ` set ?heap"
    then consider "g = sym1 @ sym2" | "g \<in> snd ` set heap"
      by (auto simp: heappush_groups)
    then show "group_ok ?d2 g"
    proof cases
      case 1
      from d1 d2 d12 have "distinct (sym1 @ sym2)" by simp
      with g1 g2 c1 c2 1 show ?thesis by (simp add: group_ok_merge)
    next
      case 2
      then have "set g \<subseteq> set (concat (map snd heap))" by auto
      with rest have "\<forall>s \<in> set g. s \<notin> set sym1 \<and> s \<notin> set sym2" by auto
      with c3 have eq: "\<forall>s \<in> set g. getitem_defaultdict_str ?d2 s = getitem_defaultdict_str d s"
        by simp
      from gs 2 have "group_ok d g" by blast
      then show ?thesis using eq by (rule group_ok_unchanged)
    qed
  qed
  moreover have "fst ` set ?d2 \<subseteq> set (concat (map snd ?heap))"
  proof -
    have "set (concat (map snd ?heap)) = set (sym1 @ sym2 @ concat (map snd heap))"
      using ms by (rule mset_eq_setD)
    moreover have "fst ` set ?d2 = set sym2 \<union> (set sym1 \<union> fst ` set d)"
      by (simp only: prepend_bit_keys)
    ultimately show ?thesis using keys by auto
  qed
  moreover have "distinct (map fst ?d2)"
    using dd by (simp add: prepend_bit_distinct)
  ultimately show ?thesis by (simp add: huff_inv_def)
qed

lemma huffman_while_inv:
  "huff_inv heap d \<Longrightarrow> heap \<noteq> [] \<Longrightarrow>
   \<exists>g. mset g = mset (concat (map snd heap)) \<and> group_ok (huffman_while heap d) g \<and>
       fst ` set (huffman_while heap d) \<subseteq> set g \<and> distinct (map fst (huffman_while heap d))"
proof (induction heap d rule: huffman_while.induct)
  case (1 freq1 sym1 freq2 sym2 heap d)
  let ?heap = "heappush heap (freq1 + freq2, sym1 @ sym2)"
  let ?d = "prepend_bit (CHR ''1'') sym2 (prepend_bit (CHR ''0'') sym1 d)"
  have inv: "huff_inv ?heap ?d" using "1.prems"(1) by (rule huff_inv_step)
  have ne: "?heap \<noteq> []" by (simp add: heappush_def)
  from "1.IH" [OF inv ne] obtain g where
    g: "mset g = mset (concat (map snd ?heap))" "group_ok (huffman_while ?heap ?d) g"
      "fst ` set (huffman_while ?heap ?d) \<subseteq> set g" "distinct (map fst (huffman_while ?heap ?d))"
    by blast
  have "mset g = mset (concat (map snd ((freq1, sym1) # (freq2, sym2) # heap)))"
    using g(1) by (simp add: heappush_symbols)
  with g(2,3,4) show ?case by auto
next
  case (2 item d)
  then show ?case
    by (intro exI [of _ "snd item"]) (simp add: huff_inv_def)
next
  case (3 d)
  then show ?case by simp
qed

lemma heappush_length: "length (heappush heap item) = Suc (length heap)"
  by (simp add: heappush_def)

lemma initial_heap:
  "mset (concat (map snd (fold (\<lambda>(symbol, freq) heap. heappush heap (freq, [symbol])) frequencies heap))) =
     mset (map fst frequencies) + mset (concat (map snd heap)) \<and>
   snd ` set (fold (\<lambda>(symbol, freq) heap. heappush heap (freq, [symbol])) frequencies heap) =
     (\<lambda>s. [s]) ` fst ` set frequencies \<union> snd ` set heap \<and>
   length (fold (\<lambda>(symbol, freq) heap. heappush heap (freq, [symbol])) frequencies heap) =
     length frequencies + length heap"
proof (induction frequencies arbitrary: heap)
  case Nil
  then show ?case by simp
next
  case (Cons a frequencies)
  obtain symbol freq where a: "a = (symbol, freq)" by (cases a)
  show ?case
    using Cons.IH [of "heappush heap (freq, [symbol])"]
    by (simp add: a heappush_symbols heappush_groups heappush_length Un_commute insert_commute)
qed

lemma initial_inv:
  assumes "distinct (map fst frequencies)"
  shows "huff_inv (fold (\<lambda>(symbol, freq) heap. heappush heap (freq, [symbol])) frequencies []) []"
proof -
  let ?heap = "fold (\<lambda>(symbol, freq) heap. heappush heap (freq, [symbol])) frequencies []"
  from initial_heap [of frequencies "[]"]
  have ms: "mset (concat (map snd ?heap)) = mset (map fst frequencies)"
    and gr: "snd ` set ?heap = (\<lambda>s. [s]) ` fst ` set frequencies"
    by simp_all
  have "distinct (concat (map snd ?heap))"
    using assms mset_eq_imp_distinct_iff [OF ms] by simp
  moreover have "\<forall>g \<in> snd ` set ?heap. group_ok [] g"
    unfolding gr by (auto simp: group_ok_def)
  ultimately show ?thesis by (simp add: huff_inv_def)
qed

lemma code_some:
  "getitem_defaultdict_str d s \<noteq> [] \<Longrightarrow> map_of d s = Some (getitem_defaultdict_str d s)"
  by (cases "map_of d s") (simp_all add: getitem_defaultdict_str_def)

lemma code_of_some: "map_of d s = Some c \<Longrightarrow> getitem_defaultdict_str d s = c"
  by (simp add: getitem_defaultdict_str_def)

lemma huffman_single: "huffman [(s, f)] = [(s, ''0'')]"
  by (simp add: huffman_def heappush_def)

lemma huffman_many:
  assumes "length frequencies \<noteq> 1" and "frequencies \<noteq> []" and "distinct (map fst frequencies)"
  shows "\<exists>g. mset g = mset (map fst frequencies) \<and> group_ok (huffman frequencies) g \<and>
             fst ` set (huffman frequencies) \<subseteq> set g \<and> distinct (map fst (huffman frequencies))"
proof -
  let ?heap = "fold (\<lambda>(symbol, freq) heap. heappush heap (freq, [symbol])) frequencies []"
  from initial_heap [of frequencies "[]"]
  have ms: "mset (concat (map snd ?heap)) = mset (map fst frequencies)"
    and len: "length ?heap = length frequencies"
    by simp_all
  from len assms(2) have ne: "?heap \<noteq> []" by auto
  from huffman_while_inv [OF initial_inv [OF assms(3)] ne] ms assms(1)
  show ?thesis by (simp add: huffman_def Let_def)
qed

lemma binary_update:
  assumes "\<forall>s c. map_of d s = Some c \<longrightarrow> set c \<subseteq> {CHR ''0'', CHR ''1''}"
    and "set v \<subseteq> {CHR ''0'', CHR ''1''}"
  shows "\<forall>s c. map_of (AList.update k v d) s = Some c \<longrightarrow> set c \<subseteq> {CHR ''0'', CHR ''1''}"
  using assms by (simp add: update_conv')

lemma binary_getitem:
  assumes "\<forall>s c. map_of d s = Some c \<longrightarrow> set c \<subseteq> {CHR ''0'', CHR ''1''}"
  shows "set (getitem_defaultdict_str d k) \<subseteq> {CHR ''0'', CHR ''1''}"
  using assms by (cases "map_of d k") (simp_all add: getitem_defaultdict_str_def)

lemma binary_prepend_bit:
  assumes "b \<in> {CHR ''0'', CHR ''1''}"
  shows "\<forall>s c. map_of d s = Some c \<longrightarrow> set c \<subseteq> {CHR ''0'', CHR ''1''} \<Longrightarrow>
         \<forall>s c. map_of (prepend_bit b syms d) s = Some c \<longrightarrow> set c \<subseteq> {CHR ''0'', CHR ''1''}"
proof (induction syms arbitrary: d)
  case Nil
  then show ?case by (simp add: prepend_bit_Nil)
next
  case (Cons a syms)
  have "set (b # getitem_defaultdict_str d a) \<subseteq> {CHR ''0'', CHR ''1''}"
    using assms binary_getitem [OF Cons.prems, of a] by simp
  with Cons.prems
  have "\<forall>s c. map_of (AList.update a (b # getitem_defaultdict_str d a) d) s = Some c \<longrightarrow>
          set c \<subseteq> {CHR ''0'', CHR ''1''}"
    by (rule binary_update)
  then show ?case
    unfolding prepend_bit_Cons by (rule Cons.IH)
qed

lemma binary_huffman_while:
  "\<forall>s c. map_of d s = Some c \<longrightarrow> set c \<subseteq> {CHR ''0'', CHR ''1''} \<Longrightarrow>
   \<forall>s c. map_of (huffman_while heap d) s = Some c \<longrightarrow> set c \<subseteq> {CHR ''0'', CHR ''1''}"
proof (induction heap d rule: huffman_while.induct)
  case (1 freq1 sym1 freq2 sym2 heap d)
  have b0: "CHR ''0'' \<in> {CHR ''0'', CHR ''1''}" and b1: "CHR ''1'' \<in> {CHR ''0'', CHR ''1''}"
    by simp_all
  note d0 = binary_prepend_bit [OF b0 "1.prems", of sym1]
  note d1 = binary_prepend_bit [OF b1 d0, of sym2]
  from "1.IH" [OF d1] show ?case by simp
next
  case (2 item d)
  then show ?case by simp
next
  case (3 d)
  then show ?case by simp
qed

lemma binary_huffman:
  "\<forall>s c. map_of (huffman frequencies) s = Some c \<longrightarrow> set c \<subseteq> {CHR ''0'', CHR ''1''}"
proof -
  let ?heap = "fold (\<lambda>(symbol, freq) heap. heappush heap (freq, [symbol])) frequencies []"
  have w: "\<forall>s c. map_of (huffman_while ?heap []) s = Some c \<longrightarrow> set c \<subseteq> {CHR ''0'', CHR ''1''}"
    by (rule binary_huffman_while) simp
  then have "\<forall>s c. map_of (AList.update (fst (hd frequencies)) ''0'' (huffman_while ?heap [])) s = Some c \<longrightarrow>
          set c \<subseteq> {CHR ''0'', CHR ''1''}"
    by (rule binary_update) simp
  with w show ?thesis
    by (simp only: huffman_def Let_def split: if_splits) simp
qed

text \<open>
  Claim C4. For every non-empty frequency dict, \<^verbatim>\<open>huffman\<close> returns a dict whose keys are
  exactly the symbols of the frequency dict, every code is a non-empty string of the
  characters \<^verbatim>\<open>'0'\<close> and \<^verbatim>\<open>'1'\<close>, and the
  code of one symbol is never a prefix of the code of another (so the codes are pairwise
  distinct). The frequencies themselves play no part in this.
\<close>

theorem huffman_prefix_free:
  assumes "frequencies \<noteq> []" and "distinct (map fst frequencies)"
  shows "dom (map_of (huffman frequencies)) = fst ` set frequencies \<and>
         distinct (map fst (huffman frequencies)) \<and>
         (\<forall>s c. map_of (huffman frequencies) s = Some c \<longrightarrow> c \<noteq> []) \<and>
         (\<forall>s c. map_of (huffman frequencies) s = Some c \<longrightarrow> set c \<subseteq> {CHR ''0'', CHR ''1''}) \<and>
         (\<forall>s t c c'. map_of (huffman frequencies) s = Some c \<longrightarrow>
                     map_of (huffman frequencies) t = Some c' \<longrightarrow> s \<noteq> t \<longrightarrow> \<not> prefix c c')"
proof (cases "length frequencies = 1")
  case True
  then obtain s f where "frequencies = [(s, f)]"
    by (cases frequencies) auto
  then show ?thesis by (simp add: huffman_single)
next
  case False
  let ?R = "huffman frequencies"
  from huffman_many [OF False assms] obtain g where
    ms: "mset g = mset (map fst frequencies)" and ok: "group_ok ?R g"
    and keys: "fst ` set ?R \<subseteq> set g" and dist: "distinct (map fst ?R)"
    by blast
  from ms have sg: "set g = fst ` set frequencies"
    by (metis mset_eq_setD set_map)
  from ms have "length g = length frequencies"
    by (metis mset_eq_length length_map)
  with False have single: "g \<noteq> [s]" for s by auto
  have nonempty: "getitem_defaultdict_str ?R s \<noteq> []" if "s \<in> set g" for s
    using ok that single unfolding group_ok_def by blast
  have some: "map_of ?R s = Some (getitem_defaultdict_str ?R s)" if "s \<in> set g" for s
    using nonempty [OF that] by (rule code_some)
  have dom: "dom (map_of ?R) = fst ` set frequencies"
  proof
    show "dom (map_of ?R) \<subseteq> fst ` set frequencies"
      using keys sg by (simp add: dom_map_of_conv_image_fst)
    show "fst ` set frequencies \<subseteq> dom (map_of ?R)"
      using some sg by auto
  qed
  have ne: "c \<noteq> []" if "map_of ?R s = Some c" for s c
  proof -
    from that have "s \<in> dom (map_of ?R)" by auto
    with dom sg have "s \<in> set g" by simp
    from nonempty [OF this] code_of_some [OF that] show ?thesis by simp
  qed
  have pf: "\<not> prefix c c'" if "map_of ?R s = Some c" "map_of ?R t = Some c'" "s \<noteq> t" for s t c c'
  proof -
    from that(1,2) have "s \<in> dom (map_of ?R)" "t \<in> dom (map_of ?R)" by auto
    with dom sg have "s \<in> set g" "t \<in> set g" by simp_all
    with ok that(3) have "\<not> prefix (getitem_defaultdict_str ?R s) (getitem_defaultdict_str ?R t)"
      unfolding group_ok_def by blast
    with code_of_some [OF that(1)] code_of_some [OF that(2)] show ?thesis by simp
  qed
  note bin = binary_huffman [of frequencies]
  show ?thesis
  proof (intro conjI allI impI)
    show "dom (map_of ?R) = fst ` set frequencies" by (rule dom)
    show "distinct (map fst ?R)" by (rule dist)
    show "c \<noteq> []" if "map_of ?R s = Some c" for s c using that by (rule ne)
    show "set c \<subseteq> {CHR ''0'', CHR ''1''}" if "map_of ?R s = Some c" for s c
      using bin that by blast
    show "\<not> prefix c c'" if "map_of ?R s = Some c" "map_of ?R t = Some c'" "s \<noteq> t" for s t c c'
      using that by (rule pf)
  qed
qed

lemma huffman_ABC:
  "huffman [(65 :: byte, 5 :: nat), (66, 2), (67, 1)] = [(67, ''00''), (66, ''01''), (65, ''1'')]"
  by (simp add: huffman_def heappush_def prepend_bit_def getitem_defaultdict_str_def)

theorem huffman_prefix_free_witness:
  "[(65 :: byte, 5 :: nat), (66, 2), (67, 1)] \<noteq> [] \<and>
   distinct (map fst [(65 :: byte, 5 :: nat), (66, 2), (67, 1)]) \<and>
   huffman [(65 :: byte, 5 :: nat), (66, 2), (67, 1)] = [(67, ''00''), (66, ''01''), (65, ''1'')] \<and>
   dom (map_of (huffman [(65 :: byte, 5 :: nat), (66, 2), (67, 1)])) = {65, 66, 67} \<and>
   \<not> prefix ''1'' ''00'' \<and> \<not> prefix ''00'' ''01'' \<and> set ''01'' \<subseteq> {CHR ''0'', CHR ''1''}"
proof -
  have a: "[(65 :: byte, 5 :: nat), (66, 2), (67, 1)] \<noteq> []" by simp
  have d: "distinct (map fst [(65 :: byte, 5 :: nat), (66, 2), (67, 1)])" by simp
  from huffman_prefix_free [OF a d]
  have "dom (map_of (huffman [(65 :: byte, 5 :: nat), (66, 2), (67, 1)])) =
          fst ` set [(65 :: byte, 5 :: nat), (66, 2), (67, 1)]"
    by blast
  then have dom: "dom (map_of (huffman [(65 :: byte, 5 :: nat), (66, 2), (67, 1)])) = {65, 66, 67}"
    by simp
  show ?thesis
    by (intro conjI a d huffman_ABC dom) simp_all
qed

end
